theory Spec2Isabelle
  imports Main
begin

section \<open>cmenu: an interactive line picker (src/cmenu.c)\<close>

text \<open>
  A shallow embedding of \<^verbatim>\<open>src/cmenu.c\<close>. Conventions:
  \<^item> a C \<^verbatim>\<open>char\<close> is a \<^typ>\<open>char\<close> (one byte); a NUL-terminated C string is the
    \<^typ>\<open>string\<close> of the bytes before its terminator, and reading at the end of that
    list reads the terminator;
  \<^item> \<^verbatim>\<open>int\<close> and \<^verbatim>\<open>ptrdiff_t\<close> values are \<^typ>\<open>int\<close>: every count and
    index of the program is bounded by the arena size \<^verbatim>\<open>MEMORY_MAX\<close> = 2^28, so none
    wraps; the two places where the source converts between widths
    (\<^verbatim>\<open>(unsigned)c\<close> in \<^verbatim>\<open>xtolower\<close>, the \<^verbatim>\<open>int\<close> result of \<^verbatim>\<open>fullread\<close>) are written out;
  \<^item> \<^verbatim>\<open>ERROR_EXIT(msg)\<close> and every access outside an object are values of the type
    \<open>failure\<close>, so each function that can reach them returns a sum;
  \<^item> the raw bytes the allocator hands out live in an explicit heap (addresses to
    bytes); typed objects (\<^verbatim>\<open>Entries\<close>, \<^verbatim>\<open>Terminal\<close>, the arrays) are records and lists.
\<close>

subsection \<open>Constants and failures\<close>

definition MEMORY_MAX :: int where
  "MEMORY_MAX = 2 ^ 28"

definition PATTERN_MAX :: int where
  "PATTERN_MAX = 2 ^ 12"

definition KEY_ESCAPE0 :: int where "KEY_ESCAPE0 = 0x1B"
definition KEY_ESCAPE1 :: int where "KEY_ESCAPE1 = 0x5B"
definition KEY_DOWN :: int where "KEY_DOWN = 0x42"
definition KEY_UP :: int where "KEY_UP = 0x41"
definition KEY_ENTER :: int where "KEY_ENTER = 0x0D"
definition KEY_CTRLC :: int where "KEY_CTRLC = 0x03"
definition KEY_BACKSPACE :: int where "KEY_BACKSPACE = 0x7F"

definition EXIT_SUCCESS :: int where "EXIT_SUCCESS = 0"
definition EXIT_FAILURE :: int where "EXIT_FAILURE = 1"

definition NUL :: char where
  "NUL = CHR 0x00"

text \<open>
  \<open>ERROR_EXIT msg\<close>: the macro of the source, which writes \<open>msg\<close> and a newline to
  descriptor 2 and calls \<^verbatim>\<open>exit(EXIT_FAILURE)\<close>. \<open>Out_of_bounds\<close>: a read or write outside
  the accessed array, or a division by zero (undefined behaviour in C).
\<close>

datatype failure = ERROR_EXIT string | Out_of_bounds

subsection \<open>Case folding and the matcher\<close>

text \<open>
  \<^verbatim>\<open>char xtolower(char c) { return ((unsigned)c-'A' < 26) ? c+'a'-'A' : c; }\<close>

  \<open>schar\<close> is the value of a (signed) \<^verbatim>\<open>char\<close> as an \<^verbatim>\<open>int\<close>; the conversion to
  \<^verbatim>\<open>unsigned\<close> and the unsigned subtraction are taken modulo 2^32.
\<close>

definition schar :: "char \<Rightarrow> int" where
  "schar c = (if of_char c < (128::int) then of_char c else of_char c - 256)"

definition xtolower :: "char \<Rightarrow> char" where
  "xtolower c =
     (if (schar c mod 2 ^ 32 - 65) mod 2 ^ 32 < 26 then char_of (schar c + 97 - 65) else c)"

text \<open>\<open>peek s\<close> is \<^verbatim>\<open>*s\<close> for a C string \<open>s\<close>; \<open>tl s\<close> is \<^verbatim>\<open>s + 1\<close>.\<close>

definition peek :: "string \<Rightarrow> char" where
  "peek s = (case s of [] \<Rightarrow> NUL | c # _ \<Rightarrow> c)"

text \<open>
  The \<^verbatim>\<open>while\<close> loop of \<^verbatim>\<open>is_match\<close>: the condition compares \<^verbatim>\<open>*pattern\<close> with
  \<^verbatim>\<open>xtolower(*str)\<close> and advances both pointers; the body looks at the new
  \<^verbatim>\<open>*pattern\<close> and \<^verbatim>\<open>*str\<close>.
\<close>

function is_match_loop :: "string \<Rightarrow> string \<Rightarrow> bool" where
  "is_match_loop pattern str =
     (if peek pattern = xtolower (peek str) then
        (if peek (tl pattern) = NUL then True
         else if peek (tl str) = NUL then False
         else is_match_loop (tl pattern) (tl str))
      else False)"
  by pat_completeness auto
termination
  by (relation "measure (\<lambda>(p, s). length p)") (auto simp: peek_def NUL_def split: list.splits)

definition is_match :: "string \<Rightarrow> string \<Rightarrow> bool" where
  "is_match pattern str = (if peek pattern = NUL then True else is_match_loop pattern str)"

text \<open>
  The matcher as the specification words it (section 4.3): ASCII letters
  \<^verbatim>\<open>'A'..'Z'\<close> are mapped to lowercase, all other bytes are compared as they are; both
  strings are walked in lockstep; an exhausted pattern succeeds, a candidate exhausted
  first fails, characters that differ after case folding fail.
\<close>

definition spec_fold :: "char \<Rightarrow> char" where
  "spec_fold c =
     (if (65::int) \<le> of_char c \<and> of_char c \<le> (90::int) then char_of (of_char c + (32::int))
      else c)"

fun spec_matches :: "string \<Rightarrow> string \<Rightarrow> bool" where
  "spec_matches [] candidate = True"
| "spec_matches (p # ps) [] = False"
| "spec_matches (p # ps) (c # cs) = (spec_fold p = spec_fold c \<and> spec_matches ps cs)"


subsection \<open>The arena\<close>

text \<open>
  The heap maps an address to the byte stored there. An \<open>Arena\<close> is the pair of
  cursors of the source; \<^verbatim>\<open>end\<close> is the field \<open>end'\<close>.
\<close>

type_synonym heap = "int \<Rightarrow> char"

record Arena =
  beg :: int
  end' :: int

text \<open>C division truncates towards zero.\<close>

definition c_div :: "int \<Rightarrow> int \<Rightarrow> int" where
  "c_div a b = sgn a * sgn b * (\<bar>a\<bar> div \<bar>b\<bar>)"

definition memset :: "heap \<Rightarrow> int \<Rightarrow> char \<Rightarrow> int \<Rightarrow> heap" where
  "memset h p c n = (\<lambda>a. if p \<le> a \<and> a < p + n then c else h a)"

text \<open>
  \<^verbatim>\<open>void* alloc(Arena* arena, ptrdiff_t size, ptrdiff_t count)\<close>: the result is the
  pointer, the heap after the \<^verbatim>\<open>memset\<close> and the arena after the cursor moved. The
  \<^verbatim>\<open>memset\<close> has length \<open>size'\<close> (the source's \<^verbatim>\<open>size\<close>), as in the source. \<open>size'\<close> is a \<^verbatim>\<open>sizeof\<close> in every
  call; a size that is not positive would divide by zero or give \<^verbatim>\<open>memset\<close> a negative
  length.
\<close>

definition alloc :: "heap \<Rightarrow> Arena \<Rightarrow> int \<Rightarrow> int \<Rightarrow> failure + (int \<times> heap \<times> Arena)" where
  "alloc h arena size' count =
     (let available = end' arena - beg arena in
      if size' \<le> 0 then Inl Out_of_bounds
      else if count > c_div available size' then Inl (ERROR_EXIT ''out of memory'')
      else
        let ptr = end' arena - size' * count;
            arena' = arena\<lparr>end' := ptr\<rparr>
        in Inr (ptr, if count \<noteq> 0 then memset h ptr NUL size' else h, arena'))"

text \<open>
  The sizes \<^verbatim>\<open>sizeof(Entries)\<close>, \<^verbatim>\<open>sizeof(Terminal)\<close>, \<^verbatim>\<open>sizeof(char*)\<close> and
  \<^verbatim>\<open>sizeof(int)\<close> that \<^verbatim>\<open>NEW\<close> passes, with their values on x86-64 Linux.
\<close>

definition SIZEOF_Entries :: int where "SIZEOF_Entries = 32"
definition SIZEOF_Terminal :: int where "SIZEOF_Terminal = 68"
definition SIZEOF_charp :: int where "SIZEOF_charp = 8"
definition SIZEOF_int :: int where "SIZEOF_int = 4"

subsection \<open>The world outside the process\<close>

text \<open>
  The terminal attributes (\<^verbatim>\<open>struct termios\<close>) are abstracted to a raw-mode flag and
  the remaining settings; \<^verbatim>\<open>cfmakeraw\<close> sets the flag. The world holds the heap, the
  bytes written so far to each file descriptor and the attributes of the terminal
  device. Writes and \<^verbatim>\<open>tcsetattr\<close> are taken to succeed (the source ignores their
  results), so the loop of \<^verbatim>\<open>fullwrite\<close> ends with every byte written and
  \<^verbatim>\<open>writestr\<close> appends the string to what the descriptor holds.
\<close>

datatype termios = Termios (raw: bool) (settings: nat)

definition cfmakeraw :: "termios \<Rightarrow> termios" where
  "cfmakeraw t = Termios True (settings t)"

record world =
  heap :: heap
  out :: "int \<Rightarrow> string"
  tty_attr :: termios

record Terminal =
  tty :: int
  height :: int
  original :: termios

record Entries =
  entries :: "string list"
  matches :: "int list"
  entries_len :: int
  matches_len :: int
  selected :: int

definition strlen :: "string \<Rightarrow> int" where
  "strlen str = int (length str)"

definition writestr :: "int \<Rightarrow> string \<Rightarrow> world \<Rightarrow> world" where
  "writestr fd str w = w\<lparr>out := (out w)(fd := out w fd @ str)\<rparr>"

definition clear_screen :: "Terminal \<Rightarrow> world \<Rightarrow> world" where
  "clear_screen t w =
     writestr (tty t) (CHR 0x1B # ''[H'' @ CHR 0x1B # ''[2J'' @ CHR 0x1B # ''[3J'') w"

definition restore_terminal_mode :: "Terminal \<Rightarrow> world \<Rightarrow> world" where
  "restore_terminal_mode t w = w\<lparr>tty_attr := original t\<rparr>"

definition set_terminal_mode :: "Terminal \<Rightarrow> world \<Rightarrow> Terminal \<times> world" where
  "set_terminal_mode t w =
     (let t' = t\<lparr>original := tty_attr w\<rparr>;
          termios_new = cfmakeraw (original t')
      in (t', w\<lparr>tty_attr := termios_new\<rparr>))"

text \<open>Array indexing that fails outside the array.\<close>

definition nth_opt :: "'a list \<Rightarrow> int \<Rightarrow> 'a option" where
  "nth_opt xs i = (if 0 \<le> i \<and> i < int (length xs) then Some (xs ! nat i) else None)"

subsection \<open>Reading the entries\<close>

text \<open>
  \<^verbatim>\<open>int fullread(int fd, void* buf, ptrdiff_t len)\<close> on standard input, whose bytes up
  to end of file are \<open>stdin\<close>: the loop stores bytes until \<open>len\<close> of them are stored or
  \<^verbatim>\<open>read\<close> returns less than 1, so it stores the first \<open>len\<close> bytes of \<open>stdin\<close> (none
  when \<open>len\<close> is not positive). The count is returned as an \<^verbatim>\<open>int\<close>: \<open>c_int\<close> is the
  conversion from \<^verbatim>\<open>ptrdiff_t\<close>.
\<close>

definition c_int :: "int \<Rightarrow> int" where
  "c_int x = (x + 2 ^ 31) mod 2 ^ 32 - 2 ^ 31"

definition fullread :: "string \<Rightarrow> int \<Rightarrow> string \<times> int" where
  "fullread stdin len =
     (let stored = take (nat len) stdin in (stored, c_int (int (length stored))))"

definition is_delim :: "char \<Rightarrow> bool" where
  "is_delim c = (c = NUL \<or> c = CHR 0x0A \<or> c = CHR 0x0D)"

text \<open>
  The first pass of \<^verbatim>\<open>read_entries\<close> (``count non-empty lines''), over the bytes
  \<^verbatim>\<open>input[input_off..input_len)\<close>; \<open>n\<close> is \<^verbatim>\<open>e->entries_len\<close>.
\<close>

fun count_loop :: "string \<Rightarrow> int \<Rightarrow> int \<Rightarrow> int" where
  "count_loop [] entry_len n = n"
| "count_loop (c # cs) entry_len n =
     (if is_delim c then count_loop cs 0 (n + (if entry_len > 0 then 1 else 0))
      else count_loop cs (entry_len + 1) n)"

text \<open>
  The second pass (``chop lines up into entries'') over the same bytes: the result is
  the bytes as the pass leaves them (each delimiter overwritten with NUL) and the
  pointers stored in \<^verbatim>\<open>e->entries[0]\<close>, \<^verbatim>\<open>e->entries[1]\<close>, ... as offsets from \<^verbatim>\<open>input\<close>.
\<close>

fun chop_loop :: "string \<Rightarrow> int \<Rightarrow> int \<Rightarrow> string \<times> int list" where
  "chop_loop [] input_off entry_len = ([], [])"
| "chop_loop (c # cs) input_off entry_len =
     (if is_delim c then
        (let (buf, ptrs) = chop_loop cs (input_off + 1) 0
         in (NUL # buf, (if entry_len > 0 then [input_off - entry_len] else []) @ ptrs))
      else
        (let (buf, ptrs) = chop_loop cs (input_off + 1) (entry_len + 1)
         in (c # buf, ptrs)))"

text \<open>The C string that starts at offset \<open>p\<close> of the buffer \<open>buf\<close>.\<close>

definition cstring_at :: "string \<Rightarrow> int \<Rightarrow> string" where
  "cstring_at buf p = takeWhile (\<lambda>c. c \<noteq> NUL) (drop (nat p) buf)"

text \<open>
  \<^verbatim>\<open>Entries* read_entries(Arena* arena)\<close>. The \<^verbatim>\<open>Entries\<close> object is zeroed by \<^verbatim>\<open>alloc\<close>
  (it is the first item). The input buffer is the free region at \<^verbatim>\<open>arena->beg\<close>, and
  its bytes are the list \<open>input\<close> (the heap is not read for them); when that region
  is empty the newline written after the input lands outside it. The
  \<^verbatim>\<open>entries\<close> array is modelled by the strings its pointers point to; the slots of the
  \<^verbatim>\<open>matches\<close> array are written before they are read, so the bytes the arena happens to
  hold there are not modelled (the slots start as 0).
\<close>

definition read_entries :: "heap \<Rightarrow> Arena \<Rightarrow> string \<Rightarrow> failure + (Entries \<times> heap \<times> Arena)" where
  "read_entries h arena stdin =
     (case alloc h arena SIZEOF_Entries 1 of
        Inl f \<Rightarrow> Inl f
      | Inr (e_ptr, h1, arena1) \<Rightarrow>
          let e = \<lparr>entries = [], matches = [], entries_len = 0, matches_len = 0, selected = 0\<rparr>;
              input_len = end' arena1 - beg arena1;
              (stored, input_len) = fullread stdin (input_len - 1)
          in
            if \<not> (0 \<le> input_len \<and> input_len < end' arena1 - beg arena1) then Inl Out_of_bounds
            else
              let input = take (nat input_len) stored @ [CHR 0x0A];
                  input_len = input_len + 1;
                  arena2 = arena1\<lparr>beg := beg arena1 + input_len\<rparr>;
                  e = e\<lparr>entries_len := count_loop input 0 (entries_len e)\<rparr>
              in
                (case alloc h1 arena2 SIZEOF_charp (entries_len e) of
                   Inl f \<Rightarrow> Inl f
                 | Inr (entries_ptr, h2, arena3) \<Rightarrow>
                     (case alloc h2 arena3 SIZEOF_int (entries_len e) of
                        Inl f \<Rightarrow> Inl f
                      | Inr (matches_ptr, h3, arena4) \<Rightarrow>
                          let (buf, ptrs) = chop_loop input 0 0;
                              e = e\<lparr>entries := map (cstring_at buf) ptrs,
                                     matches := replicate (nat (entries_len e)) 0\<rparr>
                          in Inr (e, h3, arena4))))"

text \<open>
  The entries as the specification words them: the maximal non-empty runs between
  delimiter bytes, in input order (\<open>spec_runs\<close>). \<open>spec_split\<close> cuts the input at every
  delimiter.
\<close>

fun spec_split :: "string \<Rightarrow> string list" where
  "spec_split [] = [[]]"
| "spec_split (c # cs) =
     (if is_delim c then [] # spec_split cs
      else (c # hd (spec_split cs)) # tl (spec_split cs))"

definition spec_runs :: "string \<Rightarrow> string list" where
  "spec_runs input = filter (\<lambda>r. r \<noteq> []) (spec_split input)"

subsection \<open>Matches and selection\<close>

definition set_selected_clamped :: "Entries \<Rightarrow> int \<Rightarrow> Entries" where
  "set_selected_clamped e n =
     e\<lparr>selected := (if n < 0 then 0 else if n \<ge> matches_len e then matches_len e - 1 else n)\<rparr>"

text \<open>
  The second loop of \<^verbatim>\<open>update_matches\<close>, from index \<open>i\<close>. Reading
  \<^verbatim>\<open>e->entries[i]\<close> and writing \<^verbatim>\<open>e->matches[e->matches_len++]\<close> fail outside the
  arrays.
\<close>

function um_loop :: "Entries \<Rightarrow> string \<Rightarrow> int \<Rightarrow> failure + Entries" where
  "um_loop e pattern i =
     (if i < entries_len e then
        (case nth_opt (entries e) i of
           None \<Rightarrow> Inl Out_of_bounds
         | Some str \<Rightarrow>
             if is_match pattern str then
               (if 0 \<le> matches_len e \<and> matches_len e < int (length (matches e)) then
                  um_loop (e\<lparr>matches := (matches e)[nat (matches_len e) := i],
                              matches_len := matches_len e + 1\<rparr>) pattern (i + 1)
                else Inl Out_of_bounds)
             else um_loop e pattern (i + 1))
      else Inr e)"
  by pat_completeness auto
termination
  by (relation "measure (\<lambda>(e, p, i). nat (entries_len e - i))") auto

primrec store_bytes :: "heap \<Rightarrow> int \<Rightarrow> string \<Rightarrow> heap" where
  "store_bytes h p [] = h"
| "store_bytes h p (c # cs) = store_bytes (h(p := c)) (p + 1) cs"

text \<open>
  \<^verbatim>\<open>void update_matches(Entries* e, char* pattern, Arena scratch)\<close>. The arena is passed
  by value: the cursor moved by \<^verbatim>\<open>NEW(&scratch, char, len)\<close> is dropped on return, the
  bytes of the lowercased copy stay in the heap. The matching loop is given
  \<^verbatim>\<open>pattern\<close>, as in the source, not the copy.
\<close>

definition update_matches :: "Entries \<Rightarrow> string \<Rightarrow> Arena \<Rightarrow> heap \<Rightarrow> failure + (Entries \<times> heap)" where
  "update_matches e pattern scratch h =
     (let len = strlen pattern + 1 in
      case alloc h scratch 1 len of
        Inl f \<Rightarrow> Inl f
      | Inr (copy, h1, scratch1) \<Rightarrow>
          let h2 = store_bytes h1 copy (map xtolower (pattern @ [NUL])) in
          (case um_loop (e\<lparr>matches_len := 0\<rparr>) pattern 0 of
             Inl f \<Rightarrow> Inl f
           | Inr e1 \<Rightarrow> Inr (e1, h2)))"

text \<open>
  One call of \<^verbatim>\<open>read(term->tty, &r, 1)\<close>: \<open>ret\<close> is the value it returned, \<open>byte\<close> the
  content of \<^verbatim>\<open>r\<close> afterwards (the byte read when \<open>ret\<close> is 1; otherwise whatever the
  uninitialised \<^verbatim>\<open>r\<close> held). \<^verbatim>\<open>r & 255\<close> is the byte as a number from 0 to 255.
\<close>

datatype tty_read = Tty_read (ret: int) (byte: char)

definition getch :: "tty_read \<Rightarrow> failure + int" where
  "getch rd = (if ret rd = - 1 then Inl (ERROR_EXIT ''tty input error'') else Inr (of_char (byte rd)))"

subsection \<open>Drawing\<close>

text \<open>
  The \<^verbatim>\<open>for\<close> loop of \<^verbatim>\<open>draw\<close> from the match index \<open>i\<close>, with \<open>j\<close> lines written so
  far. \<open>selection_mark\<close> is the string written after the selected entry.
\<close>

definition selection_mark :: string where
  "selection_mark = [CHR 0x20, CHR 0x28, CHR 0x2A, CHR 0x29]"

function draw_loop :: "Terminal \<Rightarrow> Entries \<Rightarrow> int \<Rightarrow> int \<Rightarrow> world \<Rightarrow> failure + world" where
  "draw_loop t e i j w =
     (if i < matches_len e then
        (if j + 1 = height t - 1 then Inr w
         else
           (case nth_opt (matches e) i of
              None \<Rightarrow> Inl Out_of_bounds
            | Some m \<Rightarrow>
                (case nth_opt (entries e) m of
                   None \<Rightarrow> Inl Out_of_bounds
                 | Some str \<Rightarrow>
                     let w1 = writestr (tty t) str w;
                         w2 = writestr (tty t) (if i = selected e then selection_mark else []) w1;
                         w3 = writestr (tty t) [CHR 0x0A] w2
                     in draw_loop t e (i + 1) (j + 1) w3)))
      else Inr w)"
  by pat_completeness auto
termination
  by (relation "measure (\<lambda>(t, e, i, j, w). nat (matches_len e - i))") auto

text \<open>
  \<^verbatim>\<open>void draw(Terminal* term, Entries* e, char* pattern, Arena scratch)\<close>. A failure of
  \<^verbatim>\<open>update_matches\<close> comes before anything is written.
\<close>

definition draw :: "Terminal \<Rightarrow> Entries \<Rightarrow> string \<Rightarrow> Arena \<Rightarrow> world \<Rightarrow> failure + (Entries \<times> world)" where
  "draw t e pattern scratch w =
     (case update_matches e pattern scratch (heap w) of
        Inl f \<Rightarrow> Inl f
      | Inr (e1, h1) \<Rightarrow>
          let e2 = set_selected_clamped e1 (selected e1);
              w1 = clear_screen t (w\<lparr>heap := h1\<rparr>);
              w2 = writestr (tty t) ''>'' w1;
              w3 = writestr (tty t) pattern w2;
              w4 = writestr (tty t) [CHR 0x0A] w3;
              i = (if selected e2 > height t - 3 then selected e2 - (height t - 3) else 0)
          in
            (case draw_loop t e2 i 0 w4 of
               Inl f \<Rightarrow> Inl f
             | Inr w5 \<Rightarrow> Inr (e2, w5)))"

text \<open>
  \<^verbatim>\<open>bool ch_isvalid(char ch)\<close>: the argument is the key converted to a (signed) \<^verbatim>\<open>char\<close>.
\<close>

definition ch_isvalid :: "char \<Rightarrow> bool" where
  "ch_isvalid ch = (schar ch \<ge> 32 \<and> schar ch \<le> 126)"

definition select_next :: "Entries \<Rightarrow> Entries" where
  "select_next e = (let e1 = e\<lparr>selected := selected e - 1\<rparr> in set_selected_clamped e1 (selected e1))"

definition select_prev :: "Entries \<Rightarrow> Entries" where
  "select_prev e = (let e1 = e\<lparr>selected := selected e + 1\<rparr> in set_selected_clamped e1 (selected e1))"

text \<open>
  \<^verbatim>\<open>Terminal* get_terminal(Arena* arena)\<close>: \<open>fd\<close> is what \<^verbatim>\<open>open("/dev/tty", O_RDWR)\<close>
  returned and \<open>ws_row\<close> the row count the \<^verbatim>\<open>ioctl\<close> stored. The object is zeroed by
  \<^verbatim>\<open>alloc\<close>.
\<close>

definition get_terminal :: "heap \<Rightarrow> Arena \<Rightarrow> int \<Rightarrow> int \<Rightarrow> failure + (Terminal \<times> heap \<times> Arena)" where
  "get_terminal h arena fd ws_row =
     (case alloc h arena SIZEOF_Terminal 1 of
        Inl f \<Rightarrow> Inl f
      | Inr (t_ptr, h1, arena1) \<Rightarrow>
          let t = \<lparr>tty = 0, height = 0, original = Termios False 0\<rparr>;
              t = t\<lparr>tty := fd\<rparr>
          in
            if tty t = - 1 then Inl (ERROR_EXIT ''could not open /dev/tty'')
            else Inr (t\<lparr>height := ws_row\<rparr>, h1, arena1))"

subsection \<open>The main loop\<close>

text \<open>
  The local variables of \<^verbatim>\<open>main\<close> and the world. \<open>ents\<close> is the variable
  \<^verbatim>\<open>entries\<close> and \<open>trm\<close> the variable \<^verbatim>\<open>term\<close>. \<open>pattern\<close> is the C string in the pattern
  buffer: storing a byte at index \<open>i\<close> and a NUL after it leaves the first \<open>i\<close> bytes
  followed by that byte.
\<close>

record state =
  pattern :: string
  pattern_len :: int
  selected_entry :: "string option"
  arena :: Arena
  ents :: Entries
  trm :: Terminal
  wld :: world

text \<open>
  How the process ends: \<open>Exit status w\<close> with the world it leaves; \<open>Blocked s\<close> when
  the next \<^verbatim>\<open>read\<close> waits, in the state \<open>s\<close>, for a key that the script of reads does
  not have; \<open>Undefined\<close> after an access outside an array.
\<close>

datatype outcome = Exit int world | Blocked state | Undefined

definition die :: "failure \<Rightarrow> world \<Rightarrow> outcome" where
  "die f w =
     (case f of
        ERROR_EXIT msg \<Rightarrow> Exit EXIT_FAILURE (writestr 2 (msg @ [CHR 0x0A]) w)
      | Out_of_bounds \<Rightarrow> Undefined)"

text \<open>The code after the label \<^verbatim>\<open>end:\<close>.\<close>

definition finish :: "state \<Rightarrow> outcome" where
  "finish s =
     (let w1 = restore_terminal_mode (trm s) (wld s) in
      Exit EXIT_SUCCESS (case selected_entry s of None \<Rightarrow> w1 | Some str \<Rightarrow> writestr 1 str w1))"

datatype step = Next state "tty_read list" | Done outcome

text \<open>The last three statements of the loop body (lines 344 to 346).\<close>

definition redraw :: "state \<Rightarrow> tty_read list \<Rightarrow> step" where
  "redraw s rest =
     (let w1 = restore_terminal_mode (trm s) (wld s) in
      case draw (trm s) (ents s) (if pattern_len s = 0 then [] else pattern s) (arena s) w1 of
        Inl f \<Rightarrow> Done (die f w1)
      | Inr (e1, w2) \<Rightarrow>
          let (t1, w3) = set_terminal_mode (trm s) w2
          in Next (s\<lparr>ents := e1, trm := t1, wld := w3\<rparr>) rest)"

text \<open>
  One iteration of \<^verbatim>\<open>while (1)\<close> on the script of terminal reads: it ends the process
  or gives the state at the next iteration and the reads that are left.
\<close>

fun iteration :: "state \<Rightarrow> tty_read list \<Rightarrow> step" where
  "iteration s [] = Done (Blocked s)"
| "iteration s (r # rest) =
     (case getch r of
        Inl f \<Rightarrow> Done (die f (wld s))
      | Inr ch \<Rightarrow>
          if KEY_ENTER = ch then
            (if matches_len (ents s) > 0 then
               (case nth_opt (matches (ents s)) (selected (ents s)) of
                  None \<Rightarrow> Done Undefined
                | Some i \<Rightarrow>
                    (case nth_opt (entries (ents s)) i of
                       None \<Rightarrow> Done Undefined
                     | Some str \<Rightarrow> Done (finish (s\<lparr>selected_entry := Some str\<rparr>))))
             else Done (finish s))
          else if KEY_CTRLC = ch then Done (finish s)
          else if KEY_BACKSPACE = ch then
            (let len = (if pattern_len s - 1 > - 1 then pattern_len s - 1 else pattern_len s)
             in redraw (s\<lparr>pattern_len := len, pattern := take (nat len) (pattern s)\<rparr>) rest)
          else if KEY_ESCAPE0 = ch then
            (case rest of
               [] \<Rightarrow> Done (Blocked s)
             | r2 # rest2 \<Rightarrow>
                 (case getch r2 of
                    Inl f \<Rightarrow> Done (die f (wld s))
                  | Inr ch2 \<Rightarrow>
                      if KEY_ESCAPE1 = ch2 then
                        (case rest2 of
                           [] \<Rightarrow> Done (Blocked s)
                         | r3 # rest3 \<Rightarrow>
                             (case getch r3 of
                                Inl f \<Rightarrow> Done (die f (wld s))
                              | Inr ch3 \<Rightarrow>
                                  if ch3 = KEY_UP then redraw (s\<lparr>ents := select_next (ents s)\<rparr>) rest3
                                  else if ch3 = KEY_DOWN then redraw (s\<lparr>ents := select_prev (ents s)\<rparr>) rest3
                                  else redraw s rest3))
                      else redraw s rest2))
          else if ch_isvalid (char_of ch) then
            (let s1 = s\<lparr>pattern := take (nat (pattern_len s)) (pattern s) @ [char_of ch],
                        pattern_len := pattern_len s + 1\<rparr>
             in if pattern_len s1 \<ge> PATTERN_MAX - 1 then Done (die (ERROR_EXIT ''pattern too long'') (wld s1))
                else redraw s1 rest)
          else Next s rest)"

lemma iteration_consumes:
  "iteration s inp = Next s' rest \<Longrightarrow> length rest < length inp"
  by (cases inp)
    (auto simp: redraw_def Let_def split: sum.splits if_splits option.splits list.splits prod.splits)

function main_loop :: "state \<Rightarrow> tty_read list \<Rightarrow> outcome" where
  "main_loop s inp = (case iteration s inp of Done r \<Rightarrow> r | Next s1 rest \<Rightarrow> main_loop s1 rest)"
  by pat_completeness auto
termination
  by (relation "measure (\<lambda>(s, inp). length inp)") (auto dest: iteration_consumes)

text \<open>
  \<^verbatim>\<open>int main(void)\<close>, in two parts: the statements before the loop (\<open>startup\<close>, lines 295
  to 310), which end with a failure and the world at that moment or with the state
  the loop starts in, and the loop. \<open>malloc_result\<close> is the address
  \<^verbatim>\<open>malloc(MEMORY_MAX)\<close> returned (\<open>None\<close> for a null pointer), \<open>w\<close> the world at the
  start, \<open>stdin\<close> the bytes of standard input, \<open>fd\<close> and \<open>ws_row\<close> the results of opening
  and querying the terminal, \<open>keys\<close> the script of terminal reads.
\<close>

definition startup :: "int option \<Rightarrow> world \<Rightarrow> string \<Rightarrow> int \<Rightarrow> int \<Rightarrow> (failure \<times> world) + state" where
  "startup malloc_result w stdin fd ws_row =
     (let arena0 = (case malloc_result of
                      None \<Rightarrow> \<lparr>beg = 16, end' = 16\<rparr>
                    | Some p \<Rightarrow> \<lparr>beg = p, end' = p + MEMORY_MAX\<rparr>)
      in
        case read_entries (heap w) arena0 stdin of
          Inl f \<Rightarrow> Inl (f, w)
        | Inr (e, h1, arena1) \<Rightarrow>
            (case get_terminal h1 arena1 fd ws_row of
               Inl f \<Rightarrow> Inl (f, w\<lparr>heap := h1\<rparr>)
             | Inr (t, h2, arena2) \<Rightarrow>
                 (case draw t e [] arena2 (w\<lparr>heap := h2\<rparr>) of
                    Inl f \<Rightarrow> Inl (f, w\<lparr>heap := h2\<rparr>)
                  | Inr (e1, w1) \<Rightarrow>
                      let (t1, w2) = set_terminal_mode t w1 in
                      (case alloc (heap w2) arena2 1 PATTERN_MAX of
                         Inl f \<Rightarrow> Inl (f, w2)
                       | Inr (pattern_ptr, h3, arena3) \<Rightarrow>
                           Inr \<lparr>pattern = [], pattern_len = 0, selected_entry = None,
                                arena = arena3, ents = e1, trm = t1,
                                wld = w2\<lparr>heap := h3\<rparr>\<rparr>))))"

definition main :: "int option \<Rightarrow> world \<Rightarrow> string \<Rightarrow> int \<Rightarrow> int \<Rightarrow> tty_read list \<Rightarrow> outcome" where
  "main malloc_result w stdin fd ws_row keys =
     (case startup malloc_result w stdin fd ws_row of
        Inl (f, w1) \<Rightarrow> die f w1
      | Inr s \<Rightarrow> main_loop s keys)"

subsection \<open>Auxiliary definitions for the statements and proofs\<close>

text \<open>A heap whose bytes are all \<^verbatim>\<open>'x'\<close>, and a small standard input, for the examples.\<close>

definition heap_x :: heap where
  "heap_x = (\<lambda>a. CHR ''x'')"

definition stdin_example :: string where
  "stdin_example = [CHR ''b'', CHR 0x0A, CHR 0x0D, CHR ''A'', CHR ''a'', NUL, CHR ''c'']"

text \<open>
  The runs that a left-to-right scan completes when it starts inside the run \<open>cur\<close>:
  the common shape of the two passes of \<open>read_entries\<close>.
\<close>

fun runs_acc :: "string \<Rightarrow> string \<Rightarrow> string list" where
  "runs_acc cur [] = []"
| "runs_acc cur (c # cs) =
     (if is_delim c then (if cur \<noteq> [] then [cur] else []) @ runs_acc [] cs
      else runs_acc (cur @ [c]) cs)"

text \<open>
  The \<^verbatim>\<open>Entries\<close> object is well formed when \<^verbatim>\<open>entries_len\<close> is the length of the
  \<^verbatim>\<open>entries\<close> array and the \<^verbatim>\<open>matches\<close> array has the same number of slots (both are
  allocated with \<^verbatim>\<open>entries_len\<close> items). \<open>the_matches\<close> is the sequence
  \<^verbatim>\<open>matches[0..matches_len)\<close>.
\<close>

definition wf_entries :: "Entries \<Rightarrow> bool" where
  "wf_entries e =
     (entries_len e = int (length (entries e)) \<and> length (matches e) = length (entries e))"

definition the_matches :: "Entries \<Rightarrow> int list" where
  "the_matches e = take (nat (matches_len e)) (matches e)"

definition matches_inv :: "Entries \<Rightarrow> bool" where
  "matches_inv e =
     (0 \<le> matches_len e \<and> matches_len e \<le> entries_len e
      \<and> sorted_wrt (<) (the_matches e)
      \<and> (\<forall>m \<in> set (the_matches e). 0 \<le> m \<and> m < entries_len e))"

definition selected_inv :: "Entries \<Rightarrow> bool" where
  "selected_inv e = (matches_len e > 0 \<longrightarrow> 0 \<le> selected e \<and> selected e \<le> matches_len e - 1)"

text \<open>
  The indices from \<open>i\<close> on whose entry the pattern matches; the \<^verbatim>\<open>Entries\<close> object after
  the matching loop has run from index 0; and after the clamp that follows it in
  \<open>draw\<close>.
\<close>

definition matching :: "string \<Rightarrow> Entries \<Rightarrow> int \<Rightarrow> int list" where
  "matching p e i = filter (\<lambda>k. is_match p (entries e ! nat k)) [i..entries_len e - 1]"

definition rematch :: "string \<Rightarrow> Entries \<Rightarrow> Entries" where
  "rematch p e =
     e\<lparr>matches := matching p e 0 @ drop (length (matching p e 0)) (matches e),
       matches_len := int (length (matching p e 0))\<rparr>"

definition post_draw :: "string \<Rightarrow> Entries \<Rightarrow> Entries" where
  "post_draw p e = set_selected_clamped (rematch p e) (selected e)"

text \<open>Example data: three entries, a terminal of 24 rows on descriptor 3, a world.\<close>

definition entries_example :: Entries where
  "entries_example =
     \<lparr>entries = [''Apple'', ''banana'', ''Avocado''], matches = [0, 2, 0], entries_len = 3,
      matches_len = 2, selected = 1\<rparr>"

definition terminal_example :: Terminal where
  "terminal_example = \<lparr>tty = 3, height = 24, original = Termios False 0\<rparr>"

definition world_example :: world where
  "world_example = \<lparr>heap = heap_x, out = (\<lambda>fd. []), tty_attr = Termios False 0\<rparr>"

text \<open>
  A key press: the read returns 1 and stores the byte. A byte is printable when it
  lies between space and tilde.
\<close>

definition key :: "char \<Rightarrow> tty_read" where
  "key c = Tty_read 1 c"

definition printable :: "char \<Rightarrow> bool" where
  "printable c = ((32::int) \<le> of_char c \<and> of_char c \<le> (126::int))"

text \<open>
  What can be observed of an outcome: the exit status, the terminal attributes the
  process leaves, the bytes it wrote to a descriptor, and, while the process waits for
  a key, the bytes written so far to the terminal.
\<close>

definition exit_status :: "outcome \<Rightarrow> int option" where
  "exit_status r = (case r of Exit st w \<Rightarrow> Some st | Blocked s \<Rightarrow> None | Undefined \<Rightarrow> None)"

definition exit_attr :: "outcome \<Rightarrow> termios option" where
  "exit_attr r = (case r of Exit st w \<Rightarrow> Some (tty_attr w) | Blocked s \<Rightarrow> None | Undefined \<Rightarrow> None)"

definition exit_out :: "outcome \<Rightarrow> int \<Rightarrow> string option" where
  "exit_out r fd = (case r of Exit st w \<Rightarrow> Some (out w fd) | Blocked s \<Rightarrow> None | Undefined \<Rightarrow> None)"

definition screen_of :: "outcome \<Rightarrow> string option" where
  "screen_of r =
     (case r of Blocked s \<Rightarrow> Some (out (wld s) (tty (trm s))) | Exit st w \<Rightarrow> None | Undefined \<Rightarrow> None)"

text \<open>
  The pattern that line 345 hands to \<open>draw\<close>, and the states at the head of the loop
  that some script of reads leads to from the state \<open>s0\<close>.
\<close>

definition cur_pattern :: "state \<Rightarrow> string" where
  "cur_pattern s = (if pattern_len s = 0 then [] else pattern s)"

inductive reachable :: "state \<Rightarrow> state \<Rightarrow> bool" for s0 :: state where
  start: "reachable s0 s0"
| step: "reachable s0 s \<Longrightarrow> iteration s inp = Next s1 rest \<Longrightarrow> reachable s0 s1"

text \<open>
  The invariant of the loop, for a process started in the world \<open>w0\<close>: the \<^verbatim>\<open>Entries\<close>
  object is well formed, its matches are those of the current pattern, the selection
  is clamped, the pattern buffer holds \<^verbatim>\<open>pattern_len\<close> bytes and has room for one more,
  no entry has been selected, the terminal is in raw mode with the attributes of the
  start saved, and only the terminal's descriptor has been written to.
\<close>

definition loop_inv :: "world \<Rightarrow> state \<Rightarrow> bool" where
  "loop_inv w0 s =
     (wf_entries (ents s) \<and> matches_inv (ents s) \<and> selected_inv (ents s)
      \<and> rematch (cur_pattern s) (ents s) = ents s
      \<and> pattern_len s = int (length (pattern s)) \<and> pattern_len s < PATTERN_MAX - 1
      \<and> selected_entry s = None
      \<and> original (trm s) = tty_attr w0 \<and> tty_attr (wld s) = cfmakeraw (tty_attr w0)
      \<and> (\<forall>fd. fd \<noteq> tty (trm s) \<longrightarrow> out (wld s) fd = out w0 fd))"

text \<open>What the three statements at the end of the loop body do to a state.\<close>

definition redrawn :: "state \<Rightarrow> state \<Rightarrow> bool" where
  "redrawn s s1 =
     (ents s1 = post_draw (cur_pattern s) (ents s) \<and> trm s1 = trm s \<and> pattern s1 = pattern s
      \<and> pattern_len s1 = pattern_len s \<and> selected_entry s1 = selected_entry s
      \<and> arena s1 = arena s \<and> tty_attr (wld s1) = cfmakeraw (original (trm s))
      \<and> (\<exists>bs. bs \<noteq> []
            \<and> out (wld s1) = (out (wld s))(tty (trm s) := out (wld s) (tty (trm s)) @ bs)))"

text \<open>What one iteration may change before it redraws: nothing, the selection, or the pattern.\<close>

definition edited :: "state \<Rightarrow> state \<Rightarrow> bool" where
  "edited s s1 =
     (s1 = s \<or> s1 = s\<lparr>ents := select_next (ents s)\<rparr> \<or> s1 = s\<lparr>ents := select_prev (ents s)\<rparr>
      \<or> s1 = s\<lparr>pattern_len := (if pattern_len s - 1 > - 1 then pattern_len s - 1 else pattern_len s),
               pattern := take (nat (if pattern_len s - 1 > - 1 then pattern_len s - 1 else pattern_len s))
                            (pattern s)\<rparr>
      \<or> (\<exists>c. s1 = s\<lparr>pattern := take (nat (pattern_len s)) (pattern s) @ [c],
                     pattern_len := pattern_len s + 1\<rparr>
              \<and> pattern_len s + 1 < PATTERN_MAX - 1))"

text \<open>The keys Enter, Ctrl-C and Escape.\<close>

definition Enter :: tty_read where "Enter = key (CHR 0x0D)"
definition CtrlC :: tty_read where "CtrlC = key (CHR 0x03)"
definition Escape :: tty_read where "Escape = key (CHR 0x1B)"

text \<open>
  What an ignored escape sequence does to the state \<open>s\<close> when the iteration gives the
  step \<open>st\<close>: the loop goes on with the reads \<open>rest\<close>; pattern, entries and matches are
  as before, and so is the selection when there is a match; a non-empty string of bytes
  has been written to the terminal. Further, the screen that the example input gives
  on a terminal of 24 rows, and the selection of a process that waits for a key.
\<close>

definition unchanged_redrawn :: "state \<Rightarrow> tty_read list \<Rightarrow> step \<Rightarrow> bool" where
  "unchanged_redrawn s rest st =
     (\<exists>s1 bs. st = Next s1 rest
        \<and> pattern s1 = pattern s \<and> pattern_len s1 = pattern_len s
        \<and> entries (ents s1) = entries (ents s) \<and> entries_len (ents s1) = entries_len (ents s)
        \<and> matches (ents s1) = matches (ents s) \<and> matches_len (ents s1) = matches_len (ents s)
        \<and> (matches_len (ents s) > 0 \<longrightarrow> selected (ents s1) = selected (ents s))
        \<and> bs \<noteq> [] \<and> out (wld s1) (tty (trm s)) = out (wld s) (tty (trm s)) @ bs)"

definition screen_example :: string where
  "screen_example =
     CHR 0x1B # ''[H'' @ CHR 0x1B # ''[2J'' @ CHR 0x1B # ''[3J'' @ ''>'' @ [CHR 0x0A]
     @ ''b'' @ selection_mark @ [CHR 0x0A] @ ''Aa'' @ [CHR 0x0A] @ ''c'' @ [CHR 0x0A]"

definition selected_of :: "outcome \<Rightarrow> int option" where
  "selected_of r =
     (case r of Blocked s \<Rightarrow> Some (selected (ents s)) | Exit st w \<Rightarrow> None | Undefined \<Rightarrow> None)"

section \<open>Properties\<close>

declare is_match_loop.simps [simp del]
declare um_loop.simps [simp del]
declare draw_loop.simps [simp del]
declare main_loop.simps [simp del]

subsection \<open>The matcher\<close>

lemma of_char_range: "0 \<le> (of_char c :: int) \<and> (of_char c :: int) < 256"
proof -
  have "(of_char c :: int) = int (of_char c)"
    by (simp add: of_nat_of_char)
  moreover have "(of_char c :: nat) < 256"
    by (rule nat_of_char_less_256)
  ultimately show ?thesis by simp
qed

text \<open>The unsigned comparison of \<open>xtolower\<close> selects exactly the bytes 65 to 90.\<close>

lemma wrap_sub_65:
  assumes "- 128 \<le> (x::int)" "x < 256"
  shows "((x mod 2 ^ 32 - 65) mod 2 ^ 32 < 26) = (65 \<le> x \<and> x \<le> 90)"
proof (cases "65 \<le> x")
  case True
  then have "x mod 2 ^ 32 = x" using assms by simp
  moreover have "(x - 65) mod 2 ^ 32 = x - 65" using True assms by simp
  ultimately show ?thesis using True by auto
next
  case False
  have "(x mod 2 ^ 32 - 65) mod 2 ^ 32 = (x - 65) mod 2 ^ 32"
    by (simp add: mod_diff_left_eq)
  also have "\<dots> = (x - 65 + 2 ^ 32) mod 2 ^ 32" by (rule mod_add_self2[symmetric])
  also have "\<dots> = x - 65 + 2 ^ 32" using False assms by (intro mod_pos_pos_trivial) simp_all
  finally show ?thesis using False assms by simp
qed

lemma xtolower_spec_fold: "xtolower c = spec_fold c"
proof -
  have r: "0 \<le> (of_char c :: int) \<and> (of_char c :: int) < 256" by (rule of_char_range)
  show ?thesis
  proof (cases "of_char c < (128::int)")
    case True
    then show ?thesis using r wrap_sub_65[of "of_char c"]
      by (simp add: xtolower_def spec_fold_def schar_def add.commute)
  next
    case False
    then show ?thesis using r wrap_sub_65[of "of_char c - 256"]
      by (simp add: xtolower_def spec_fold_def schar_def)
  qed
qed

lemma peek_simps [simp]: "peek [] = NUL" "peek (c # cs) = c"
  by (simp_all add: peek_def)

lemma xtolower_NUL [simp]: "xtolower NUL = NUL"
  by (simp add: xtolower_def schar_def NUL_def)

lemma peek_NUL_iff: "NUL \<notin> set s \<Longrightarrow> peek s = NUL \<longleftrightarrow> s = []"
  by (cases s) auto

text \<open>
  What \<open>is_match\<close> computes on strings without an inner NUL: the pattern itself, not
  folded, is compared with the folded candidate, position by position.
\<close>

lemma is_match_loop_prefix:
  "NUL \<notin> set p \<Longrightarrow> NUL \<notin> set s \<Longrightarrow> p \<noteq> [] \<Longrightarrow>
   is_match_loop p s = (length p \<le> length s \<and> p = map xtolower (take (length p) s))"
proof (induction p s rule: is_match_loop.induct)
  case (1 p s)
  obtain a p' where p: "p = a # p'" using "1.prems" by (cases p) auto
  have a: "a \<noteq> NUL" using "1.prems" p by auto
  show ?case
  proof (cases s)
    case Nil
    then show ?thesis using p a by (subst is_match_loop.simps) auto
  next
    case (Cons b s')
    show ?thesis
    proof (cases "a = xtolower b")
      case False
      then show ?thesis using p Cons by (subst is_match_loop.simps) auto
    next
      case True
      show ?thesis
      proof (cases "p' = []")
        case True
        then show ?thesis using p Cons \<open>a = xtolower b\<close> by (subst is_match_loop.simps) auto
      next
        case pne: False
        have pk: "peek p' \<noteq> NUL" using pne "1.prems" p by (cases p') auto
        show ?thesis
        proof (cases "s' = []")
          case True
          then show ?thesis using p Cons pk pne \<open>a = xtolower b\<close>
            by (subst is_match_loop.simps) auto
        next
          case sne: False
          have sk: "peek s' \<noteq> NUL" using sne "1.prems" Cons by (cases s') auto
          have "is_match_loop p' s' =
                (length p' \<le> length s' \<and> p' = map xtolower (take (length p') s'))"
            using "1.IH" p Cons pk sk True "1.prems" pne by auto
          then show ?thesis using p Cons pk sk True by (subst is_match_loop.simps) auto
        qed
      qed
    qed
  qed
qed

lemma is_match_iff:
  "NUL \<notin> set p \<Longrightarrow> NUL \<notin> set s \<Longrightarrow>
   is_match p s = (length p \<le> length s \<and> p = map xtolower (take (length p) s))"
  by (cases "p = []") (auto simp: is_match_def peek_NUL_iff is_match_loop_prefix)

lemma spec_matches_iff:
  "spec_matches p s =
   (length p \<le> length s \<and> map spec_fold p = map spec_fold (take (length p) s))"
  by (induction p s rule: spec_matches.induct) auto

lemma spec_fold_idem: "spec_fold (spec_fold c) = spec_fold c"
  using of_char_range[of c] by (simp add: spec_fold_def of_char_of)

text \<open>
  On a pattern without uppercase letters the source and the specification agree; the
  two differ only where the pattern holds a letter from \<^verbatim>\<open>'A'\<close> to \<^verbatim>\<open>'Z'\<close>.
\<close>

lemma is_match_lowercase_pattern:
  assumes "NUL \<notin> set p" "NUL \<notin> set s" "map spec_fold p = p"
  shows "is_match p s = spec_matches p s"
proof -
  have "map xtolower (take (length p) s) = map spec_fold (take (length p) s)"
    by (simp add: xtolower_spec_fold)
  moreover have "map spec_fold (map spec_fold (take (length p) s)) = map spec_fold (take (length p) s)"
    by (simp add: spec_fold_idem)
  ultimately show ?thesis
    unfolding is_match_iff[OF assms(1,2)] spec_matches_iff
    using assms(3) by metis
qed

lemma is_match_examples:
  "is_match ''ab'' ''ABC'' = True" "is_match ''ac'' ''ABC'' = False" "is_match [] s = True"
  by (simp_all add: is_match_def is_match_loop.simps xtolower_def schar_def NUL_def char_of_def)

text \<open>
  C1. \<^verbatim>\<open>matches(pattern, candidate)\<close> is true iff the pattern, compared
  case-insensitively (\<^verbatim>\<open>'A'..'Z'\<close> folded to lowercase), equals the candidate position by
  position up to the pattern's length. The source folds the candidate only:
  \<open>update_matches\<close> builds the lowercased copy of the pattern and then hands the
  pattern as typed to \<open>is_match\<close>. For the pattern \<^verbatim>\<open>"A"\<close> and the entry \<^verbatim>\<open>"Apple"\<close> the
  source answers false, the specification's matcher answers true, and the source's
  matcher on the lowercased copy would answer true as well.
\<close>

theorem is_match_uppercase_pattern:
  "is_match ''A'' ''Apple'' = False \<and> spec_matches ''A'' ''Apple'' = True
   \<and> is_match (map xtolower ''A'') ''Apple'' = True"
  by (simp add: is_match_def is_match_loop.simps xtolower_def schar_def NUL_def char_of_def
      spec_fold_def)

subsection \<open>The allocator\<close>

lemma c_div_pos: "0 \<le> a \<Longrightarrow> 0 < b \<Longrightarrow> c_div a b = a div b"
  by (cases "a = 0") (simp_all add: c_div_def)

text \<open>
  C2 as stated: for \<open>size > 0\<close> and \<open>count > 0\<close> that pass the capacity check, all
  \<open>size * count\<close> bytes of the storage are zero. It fails: with one-byte items and a
  count of 2 on an arena whose bytes are all \<^verbatim>\<open>'x'\<close>, the storage starts at 14, its
  first byte is zeroed, its second byte (address 15) is still \<^verbatim>\<open>'x'\<close>.
\<close>

theorem alloc_remaining_bytes_not_zeroed:
  "alloc heap_x \<lparr>beg = 0, end' = 16\<rparr> 1 2
     = Inr (14, memset heap_x 14 NUL 1, \<lparr>beg = 0, end' = 14\<rparr>)
   \<and> memset heap_x 14 NUL 1 15 = CHR ''x'' \<and> CHR ''x'' \<noteq> NUL"
proof -
  have "alloc heap_x \<lparr>beg = 0, end' = 16\<rparr> 1 2
          = Inr (14, memset heap_x 14 NUL 1, \<lparr>beg = 0, end' = 14\<rparr>)"
    by (simp add: alloc_def c_div_def)
  moreover have "memset heap_x 14 NUL 1 15 = CHR ''x''"
    by (simp add: memset_def heap_x_def)
  moreover have "CHR ''x'' \<noteq> NUL"
    by (simp add: NUL_def)
  ultimately show ?thesis by simp
qed

text \<open>
  C2, amended: for \<open>size > 0\<close> and \<open>count > 0\<close> that pass the capacity check, \<open>alloc\<close>
  moves the top cursor down by exactly \<open>size * count\<close> bytes, returns the new cursor
  as the storage, and zeroes the first item (the first \<open>size\<close> bytes) of it; every
  other byte of the heap, the rest of the storage included, keeps its value.
\<close>

theorem alloc_zeroes_first_item:
  assumes "0 < size'" and "0 < count" and "\<not> count > c_div (end' ar - beg ar) size'"
  shows "\<exists>h'. alloc h ar size' count
            = Inr (end' ar - size' * count, h', ar\<lparr>end' := end' ar - size' * count\<rparr>)
          \<and> (\<forall>a. h' a = (if end' ar - size' * count \<le> a \<and> a < end' ar - size' * count + size'
                           then NUL else h a))"
  using assms by (simp add: alloc_def memset_def Let_def)

theorem alloc_zeroes_first_item_witness:
  "(0::int) < 1 \<and> (0::int) < 2 \<and> \<not> 2 > c_div (end' \<lparr>beg = 0, end' = 16\<rparr> - beg \<lparr>beg = 0, end' = 16\<rparr>) 1
   \<and> (\<exists>h'. alloc heap_x \<lparr>beg = 0, end' = 16\<rparr> 1 2 = Inr (14, h', \<lparr>beg = 0, end' = 14\<rparr>)
          \<and> h' 14 = NUL \<and> h' 15 = CHR ''x'')"
proof -
  have c: "\<not> (2::int) > c_div (end' \<lparr>beg = 0, end' = 16\<rparr> - beg \<lparr>beg = 0, end' = 16\<rparr>) 1"
    by (simp add: c_div_def)
  from alloc_zeroes_first_item[of 1 2 "\<lparr>beg = 0, end' = 16\<rparr>" heap_x, OF _ _ c]
  obtain h' where "alloc heap_x \<lparr>beg = 0, end' = 16\<rparr> 1 2 = Inr (14, h', \<lparr>beg = 0, end' = 14\<rparr>)"
    and "\<forall>a. h' a = (if 14 \<le> a \<and> a < 15 then NUL else heap_x a)"
    by auto
  then show ?thesis using c by (auto simp: heap_x_def)
qed

subsection \<open>Reading a key\<close>

text \<open>
  C10. \<open>getch\<close> ends the process with the diagnostic ``tty input error'' only when the
  one-byte read returned -1; a read that returned 0 (end of file on the terminal) is
  not an error: \<open>getch\<close> returns normally, with whatever byte \<^verbatim>\<open>r\<close> holds.
\<close>

theorem getch_fails_only_on_minus_one:
  "(getch rd = Inl (ERROR_EXIT ''tty input error'')) = (ret rd = - 1)
   \<and> (getch rd = Inl Out_of_bounds) = False
   \<and> getch (Tty_read 0 r) = Inr (of_char r)
   \<and> getch (Tty_read 1 r) = Inr (of_char r)"
  by (simp add: getch_def)

subsection \<open>Parsing the input\<close>

lemma count_loop_runs:
  "count_loop cs (int (length cur)) n = n + int (length (runs_acc cur cs))"
proof (induction cs arbitrary: cur n)
  case Nil
  then show ?case by simp
next
  case (Cons c cs)
  show ?case
  proof (cases "is_delim c")
    case True
    then show ?thesis using Cons.IH[of "[]"] by simp
  next
    case False
    then show ?thesis using Cons.IH[of "cur @ [c]"] by (simp add: add.commute)
  qed
qed

lemma cstring_at_run:
  assumes "NUL \<notin> set cur"
  shows "cstring_at (Q @ cur @ NUL # buf) (int (length Q)) = cur"
proof -
  have "takeWhile (\<lambda>c. c \<noteq> NUL) (cur @ NUL # buf) = takeWhile (\<lambda>c. c \<noteq> NUL) cur"
    by (rule takeWhile_tail) simp
  also have "\<dots> = cur" using assms by (auto simp: takeWhile_eq_all_conv)
  finally show ?thesis by (simp add: cstring_at_def)
qed

lemma chop_loop_runs:
  assumes "NUL \<notin> set cur"
    and "chop_loop cs (int (length (Q @ cur))) (int (length cur)) = (buf, ptrs)"
  shows "map (cstring_at (Q @ cur @ buf)) ptrs = runs_acc cur cs"
  using assms
proof (induction cs arbitrary: Q cur buf ptrs)
  case Nil
  then show ?case by simp
next
  case (Cons c cs)
  show ?case
  proof (cases "is_delim c")
    case True
    obtain buf' ptrs' where r: "chop_loop cs (int (length (Q @ cur)) + 1) 0 = (buf', ptrs')"
      by (cases "chop_loop cs (int (length (Q @ cur)) + 1) 0") auto
    have buf: "buf = NUL # buf'"
      and ptrs: "ptrs = (if cur \<noteq> [] then [int (length Q)] else []) @ ptrs'"
      using Cons.prems(2) True r by auto
    have "chop_loop cs (int (length ((Q @ cur @ [NUL]) @ []))) (int (length ([]::string))) = (buf', ptrs')"
      using r by (simp add: add.commute)
    then have "map (cstring_at ((Q @ cur @ [NUL]) @ [] @ buf')) ptrs' = runs_acc [] cs"
      by (intro Cons.IH) simp_all
    then have rest: "map (cstring_at (Q @ cur @ buf)) ptrs' = runs_acc [] cs"
      using buf by simp
    show ?thesis
      using True rest ptrs buf cstring_at_run[OF Cons.prems(1), of Q buf'] by simp
  next
    case False
    then have cn: "c \<noteq> NUL" by (auto simp: is_delim_def)
    obtain buf' where r: "chop_loop cs (int (length (Q @ cur)) + 1) (int (length cur) + 1) = (buf', ptrs)"
      and buf: "buf = c # buf'"
      using Cons.prems(2) False
      by (cases "chop_loop cs (int (length (Q @ cur)) + 1) (int (length cur) + 1)") auto
    have "chop_loop cs (int (length (Q @ (cur @ [c])))) (int (length (cur @ [c]))) = (buf', ptrs)"
      using r by (simp add: add.commute)
    moreover have "NUL \<notin> set (cur @ [c])" using Cons.prems(1) cn by auto
    ultimately have "map (cstring_at (Q @ (cur @ [c]) @ buf')) ptrs = runs_acc (cur @ [c]) cs"
      by (rule Cons.IH[rotated])
    then show ?thesis using False buf by simp
  qed
qed

lemma split_delim_nonempty [simp]: "spec_split cs \<noteq> []"
  by (cases cs) auto

lemma runs_acc_split:
  "is_delim d \<Longrightarrow>
   runs_acc cur (cs @ [d])
     = filter (\<lambda>r. r \<noteq> []) ((cur @ hd (spec_split cs)) # tl (spec_split cs))"
proof (induction cs arbitrary: cur)
  case Nil
  then show ?case by simp
next
  case (Cons c cs)
  then show ?case by (cases "spec_split cs") auto
qed

lemma runs_acc_runs: "is_delim d \<Longrightarrow> runs_acc [] (cs @ [d]) = spec_runs cs"
  by (simp add: runs_acc_split spec_runs_def)

lemma runs_empty_iff: "(spec_runs cs = []) = (\<forall>c \<in> set cs. is_delim c)"
proof (induction cs)
  case Nil
  then show ?case by (simp add: spec_runs_def)
next
  case (Cons c cs)
  then show ?case by (cases "spec_split cs") (auto simp: spec_runs_def)
qed

lemma c_int_id: "0 \<le> x \<Longrightarrow> x < 2 ^ 31 \<Longrightarrow> c_int x = x"
  by (simp add: c_int_def)

lemma is_delim_LF: "is_delim (CHR 0x0A)"
  by (simp add: is_delim_def)

lemma le_c_div:
  assumes "0 < sz" "0 \<le> count" "sz * count \<le> av"
  shows "count \<le> c_div av sz"
proof -
  have "0 \<le> av" using assms by (smt (verit) mult_nonneg_nonneg)
  have "count = (sz * count) div sz" using assms by simp
  also have "\<dots> \<le> av div sz" using assms by (intro zdiv_mono1) simp_all
  finally show ?thesis using \<open>0 \<le> av\<close> assms by (simp add: c_div_pos)
qed

lemma alloc_ok:
  assumes "0 < sz" "0 \<le> count" "sz * count \<le> end' ar - beg ar"
  shows "alloc h ar sz count
           = Inr (end' ar - sz * count,
                  if count \<noteq> 0 then memset h (end' ar - sz * count) NUL sz else h,
                  ar\<lparr>end' := end' ar - sz * count\<rparr>)"
  using assms le_c_div[OF assms] by (simp add: alloc_def Let_def)

text \<open>
  C5. For every standard input that fits in the arena, the parsed entries are exactly
  the maximal non-empty runs between the delimiter bytes NUL, \<^verbatim>\<open>'\n'\<close> and \<^verbatim>\<open>'\r'\<close>, in
  input order (so their number is the number of such runs), and there is no entry
  exactly when the input is empty or holds delimiter bytes only. ``Fits'': the arena
  (at most \<open>MEMORY_MAX\<close> bytes) has room for the \<^verbatim>\<open>Entries\<close> object, the input with its
  added newline and the two arrays.
\<close>

theorem read_entries_runs:
  assumes room: "SIZEOF_Entries + (int (length stdin) + 1)
                   + (SIZEOF_charp + SIZEOF_int) * int (length (spec_runs stdin)) \<le> end' ar - beg ar"
    and size: "end' ar - beg ar \<le> MEMORY_MAX"
  shows "\<exists>e h' ar'. read_entries h ar stdin = Inr (e, h', ar')
           \<and> entries e = spec_runs stdin
           \<and> entries_len e = int (length (spec_runs stdin))
           \<and> (entries_len e = 0) = (\<forall>c \<in> set stdin. is_delim c)"
proof -
  define n where "n = int (length (spec_runs stdin))"
  have n0: "0 \<le> n" by (simp add: n_def)
  have av: "32 + (int (length stdin) + 1) + 12 * n \<le> end' ar - beg ar" "end' ar - beg ar \<le> 2 ^ 28"
    using room size
    by (simp_all add: n_def SIZEOF_Entries_def SIZEOF_charp_def SIZEOF_int_def MEMORY_MAX_def)
  have fr: "fullread stdin (end' ar - beg ar - 33) = (stdin, int (length stdin))"
    using av n0 by (simp add: fullread_def c_int_id Let_def)
  let ?input = "stdin @ [CHR 0x0A]"
  have cnt: "count_loop ?input 0 0 = n"
    using count_loop_runs[of ?input "[]" 0] by (simp add: runs_acc_runs is_delim_LF n_def)
  obtain buf ptrs where ch: "chop_loop ?input 0 0 = (buf, ptrs)"
    by (cases "chop_loop ?input 0 0") auto
  have "map (cstring_at ([] @ [] @ buf)) ptrs = runs_acc [] ?input"
    by (rule chop_loop_runs) (simp_all add: ch)
  then have ents: "map (cstring_at buf) ptrs = spec_runs stdin"
    by (simp add: runs_acc_runs is_delim_LF)
  have "\<exists>h' ar'. read_entries h ar stdin
          = Inr (\<lparr>entries = spec_runs stdin, matches = replicate (nat n) 0, entries_len = n,
                  matches_len = 0, selected = 0\<rparr>, h', ar')"
    using av n0
    by (simp add: read_entries_def alloc_ok SIZEOF_Entries_def SIZEOF_charp_def SIZEOF_int_def
        fr cnt ch ents Let_def)
  moreover have "(n = 0) = (\<forall>c \<in> set stdin. is_delim c)"
    using runs_empty_iff[of stdin] by (simp add: n_def)
  ultimately show ?thesis by (auto simp: n_def)
qed

lemma runs_example: "spec_runs stdin_example = [''b'', ''Aa'', ''c'']"
  by (simp add: spec_runs_def stdin_example_def is_delim_def NUL_def)

theorem read_entries_runs_witness:
  "SIZEOF_Entries + (int (length stdin_example) + 1)
      + (SIZEOF_charp + SIZEOF_int) * int (length (spec_runs stdin_example))
      \<le> end' \<lparr>beg = 0, end' = 100\<rparr> - beg \<lparr>beg = 0, end' = 100\<rparr>
   \<and> end' \<lparr>beg = 0, end' = 100\<rparr> - beg \<lparr>beg = 0, end' = 100\<rparr> \<le> MEMORY_MAX
   \<and> (\<exists>e h' ar'. read_entries heap_x \<lparr>beg = 0, end' = 100\<rparr> stdin_example = Inr (e, h', ar')
         \<and> entries e = [''b'', ''Aa'', ''c''] \<and> entries_len e = 3)"
proof -
  have 1: "SIZEOF_Entries + (int (length stdin_example) + 1)
      + (SIZEOF_charp + SIZEOF_int) * int (length (spec_runs stdin_example))
      \<le> end' \<lparr>beg = 0, end' = 100\<rparr> - beg \<lparr>beg = 0, end' = 100\<rparr>"
    by (simp add: runs_example) (simp add: stdin_example_def SIZEOF_Entries_def SIZEOF_charp_def SIZEOF_int_def)
  have 2: "end' \<lparr>beg = 0, end' = 100\<rparr> - beg \<lparr>beg = 0, end' = 100\<rparr> \<le> MEMORY_MAX"
    by (simp add: MEMORY_MAX_def)
  show ?thesis
    using read_entries_runs[OF 1 2, of heap_x] 1 2 by (auto simp: runs_example)
qed


subsection \<open>Matches and selection\<close>

lemma matching_simps [simp]:
  "matching p (e\<lparr>matches := ms\<rparr>) i = matching p e i"
  "matching p (e\<lparr>matches_len := ml\<rparr>) i = matching p e i"
  "matching p (e\<lparr>selected := sel\<rparr>) i = matching p e i"
  by (simp_all add: matching_def)

lemma matching_rec:
  "i < entries_len e \<Longrightarrow>
   matching p e i = (if is_match p (entries e ! nat i) then [i] else []) @ matching p e (i + 1)"
  by (simp add: matching_def upto_rec1[of i])

lemma matching_done: "\<not> i < entries_len e \<Longrightarrow> matching p e i = []"
  by (simp add: matching_def)

lemma um_loop_result:
  assumes "wf_entries e" "0 \<le> i" "0 \<le> matches_len e" "matches_len e \<le> i"
  shows "um_loop e p i
           = Inr (e\<lparr>matches := the_matches e @ matching p e i
                        @ drop (nat (matches_len e) + length (matching p e i)) (matches e),
                    matches_len := matches_len e + int (length (matching p e i))\<rparr>)"
  using assms
proof (induction e p i rule: um_loop.induct)
  case (1 e p i)
  show ?case
  proof (cases "i < entries_len e")
    case False
    then show ?thesis
      by (subst um_loop.simps) (simp add: matching_done the_matches_def)
  next
    case True
    have len: "int (length (entries e)) = entries_len e" "length (matches e) = length (entries e)"
      using "1.prems"(1) by (simp_all add: wf_entries_def)
    have nth: "nth_opt (entries e) i = Some (entries e ! nat i)"
      using True "1.prems"(2) len by (simp add: nth_opt_def)
    show ?thesis
    proof (cases "is_match p (entries e ! nat i)")
      case False
      have "um_loop e p (i + 1)
              = Inr (e\<lparr>matches := the_matches e @ matching p e (i + 1)
                        @ drop (nat (matches_len e) + length (matching p e (i + 1))) (matches e),
                    matches_len := matches_len e + int (length (matching p e (i + 1)))\<rparr>)"
        using "1.IH"(2)[OF True nth False] "1.prems" by simp
      then show ?thesis
        using True False nth by (subst um_loop.simps) (simp add: matching_rec)
    next
      case hit: True
      let ?ml = "nat (matches_len e)"
      let ?e' = "e\<lparr>matches := (matches e)[?ml := i], matches_len := matches_len e + 1\<rparr>"
      have room: "0 \<le> matches_len e \<and> matches_len e < int (length (matches e))"
        using True "1.prems" len by simp
      then have lt: "?ml < length (matches e)" by linarith
      have tm: "the_matches ?e' = the_matches e @ [i]"
        using lt "1.prems"(3)
        by (simp add: the_matches_def nat_add_distrib take_Suc_conv_app_nth)
      have dr: "drop (nat (matches_len ?e') + length (matching p e (i + 1))) (matches ?e')
                  = drop (?ml + length (matching p e i)) (matches e)"
        using "1.prems"(3) hit True by (simp add: matching_rec nat_add_distrib)
      have "um_loop ?e' p (i + 1)
              = Inr (?e'\<lparr>matches := the_matches ?e' @ matching p ?e' (i + 1)
                        @ drop (nat (matches_len ?e') + length (matching p ?e' (i + 1))) (matches ?e'),
                    matches_len := matches_len ?e' + int (length (matching p ?e' (i + 1)))\<rparr>)"
        using "1.IH"(1)[OF True nth hit room] "1.prems" len by (simp add: wf_entries_def)
      then have "um_loop ?e' p (i + 1)
              = Inr (e\<lparr>matches := the_matches e @ matching p e i
                        @ drop (?ml + length (matching p e i)) (matches e),
                    matches_len := matches_len e + int (length (matching p e i))\<rparr>)"
        using tm dr hit True by (simp add: matching_rec)
      then show ?thesis
        using True hit nth room by (subst um_loop.simps) simp
    qed
  qed
qed


lemma alloc_byte_cases:
  "alloc h sc 1 n = Inl (ERROR_EXIT ''out of memory'')
   \<or> (\<exists>h'. alloc h sc 1 n = Inr (end' sc - n, h', sc\<lparr>end' := end' sc - n\<rparr>))"
  by (simp add: alloc_def Let_def)

lemma alloc_byte_ok:
  "0 \<le> n \<Longrightarrow> n \<le> end' sc - beg sc \<Longrightarrow>
   \<exists>h'. alloc h sc 1 n = Inr (end' sc - n, h', sc\<lparr>end' := end' sc - n\<rparr>)"
  by (simp add: alloc_def Let_def c_div_pos)

lemma update_matches_cases:
  assumes "wf_entries e"
  shows "update_matches e p sc h = Inl (ERROR_EXIT ''out of memory'')
         \<or> (\<exists>h'. update_matches e p sc h = Inr (rematch p e, h'))"
proof -
  have "um_loop (e\<lparr>matches_len := 0\<rparr>) p 0 = Inr (rematch p e)"
    using assms by (subst um_loop_result) (simp_all add: wf_entries_def the_matches_def rematch_def)
  then show ?thesis
    using alloc_byte_cases[of h sc "strlen p + 1"]
    by (auto simp: update_matches_def Let_def)
qed

lemma update_matches_ok:
  assumes "wf_entries e" "strlen p + 1 \<le> end' sc - beg sc"
  shows "\<exists>h'. update_matches e p sc h = Inr (rematch p e, h')"
proof -
  have "um_loop (e\<lparr>matches_len := 0\<rparr>) p 0 = Inr (rematch p e)"
    using assms by (subst um_loop_result) (simp_all add: wf_entries_def the_matches_def rematch_def)
  moreover have "0 \<le> strlen p + 1" by (simp add: strlen_def)
  ultimately show ?thesis
    using alloc_byte_ok[of "strlen p + 1" sc h] assms(2)
    by (auto simp: update_matches_def Let_def)
qed

lemma sorted_matching: "sorted_wrt (<) (matching p e i)"
  by (simp add: matching_def sorted_wrt_filter strict_sorted_iff)

lemma set_matching: "m \<in> set (matching p e i) \<Longrightarrow> i \<le> m \<and> m < entries_len e"
  by (auto simp: matching_def)

lemma length_matching:
  assumes "0 \<le> i" "0 \<le> entries_len e"
  shows "int (length (matching p e i)) \<le> entries_len e"
proof -
  have "length (matching p e i) \<le> length [i..entries_len e - 1]"
    unfolding matching_def by (rule length_filter_le)
  then show ?thesis using assms by simp
qed

lemma rematch_fields [simp]:
  "entries (rematch p e) = entries e"
  "entries_len (rematch p e) = entries_len e"
  "selected (rematch p e) = selected e"
  "matches_len (rematch p e) = int (length (matching p e 0))"
  by (simp_all add: rematch_def)

lemma the_matches_rematch [simp]: "the_matches (rematch p e) = matching p e 0"
  by (simp add: the_matches_def rematch_def)

lemma wf_rematch: "wf_entries e \<Longrightarrow> wf_entries (rematch p e)"
  using length_matching[of 0 e p] by (simp add: wf_entries_def rematch_def)

lemma matches_inv_rematch: "wf_entries e \<Longrightarrow> matches_inv (rematch p e)"
  using length_matching[of 0 e p] set_matching[of _ p e 0]
  by (auto simp: matches_inv_def sorted_matching wf_entries_def)

lemma clamp_fields [simp]:
  "entries (set_selected_clamped e n) = entries e"
  "entries_len (set_selected_clamped e n) = entries_len e"
  "matches (set_selected_clamped e n) = matches e"
  "matches_len (set_selected_clamped e n) = matches_len e"
  "the_matches (set_selected_clamped e n) = the_matches e"
  by (simp_all add: set_selected_clamped_def the_matches_def)

lemma selected_inv_clamp: "selected_inv (set_selected_clamped e n)"
  by (simp add: selected_inv_def set_selected_clamped_def)

lemma wf_clamp [simp]: "wf_entries (set_selected_clamped e n) = wf_entries e"
  by (simp add: wf_entries_def)

lemma matches_inv_clamp [simp]: "matches_inv (set_selected_clamped e n) = matches_inv e"
  by (simp add: matches_inv_def)

lemma select_next_eq: "select_next e = set_selected_clamped e (selected e - 1)"
  by (simp add: select_next_def set_selected_clamped_def Let_def)

lemma select_prev_eq: "select_prev e = set_selected_clamped e (selected e + 1)"
  by (simp add: select_prev_def set_selected_clamped_def Let_def)

lemma writestr_writestr [simp]: "writestr fd b (writestr fd a w) = writestr fd (a @ b) w"
  by (simp add: writestr_def)

lemma writestr_fields [simp]:
  "heap (writestr fd a w) = heap w"
  "tty_attr (writestr fd a w) = tty_attr w"
  "out (writestr fd a w) fd = out w fd @ a"
  "fd' \<noteq> fd \<Longrightarrow> out (writestr fd a w) fd' = out w fd'"
  by (simp_all add: writestr_def)

lemma draw_loop_ok:
  assumes "wf_entries e" "matches_inv e" "0 \<le> i"
  shows "\<exists>bs. draw_loop t e i j w = Inr (writestr (tty t) bs w)"
  using assms
proof (induction t e i j w rule: draw_loop.induct)
  case (1 t e i j w)
  show ?case
  proof (cases "i < matches_len e \<and> j + 1 \<noteq> height t - 1")
    case False
    have "w = writestr (tty t) [] w" by (simp add: writestr_def)
    then show ?thesis using False by (subst draw_loop.simps) auto
  next
    case True
    have len: "int (length (entries e)) = entries_len e" "length (matches e) = length (entries e)"
      using "1.prems"(1) by (simp_all add: wf_entries_def)
    have "i < matches_len e" "matches_len e \<le> int (length (matches e))"
      using True "1.prems"(2) len by (simp_all add: matches_inv_def)
    then have il1: "nat i < length (matches e)" and il2: "nat i < nat (matches_len e)"
      using "1.prems"(3) by simp_all
    have "the_matches e ! nat i = matches e ! nat i"
      using il2 by (simp add: the_matches_def)
    moreover have "nat i < length (the_matches e)"
      using il1 il2 by (simp add: the_matches_def)
    ultimately have "matches e ! nat i \<in> set (the_matches e)"
      by (metis nth_mem)
    then have m: "0 \<le> matches e ! nat i \<and> matches e ! nat i < entries_len e"
      using "1.prems"(2) by (simp add: matches_inv_def)
    have n1: "nth_opt (matches e) i = Some (matches e ! nat i)"
      using il1 "1.prems"(3) by (simp add: nth_opt_def)
    have n2: "nth_opt (entries e) (matches e ! nat i) = Some (entries e ! nat (matches e ! nat i))"
      using m len by (simp add: nth_opt_def)
    let ?w3 = "writestr (tty t) [CHR 0x0A]
                 (writestr (tty t) (if i = selected e then selection_mark else [])
                    (writestr (tty t) (entries e ! nat (matches e ! nat i)) w))"
    obtain bs where "draw_loop t e (i + 1) (j + 1) ?w3 = Inr (writestr (tty t) bs ?w3)"
      using "1.IH"[OF _ _ n1 n2 refl refl refl] True "1.prems" by auto
    then show ?thesis
      using True n1 n2 by (subst draw_loop.simps) (auto simp: Let_def)
  qed
qed

lemma draw_after_update:
  assumes "wf_entries e" and u: "update_matches e p sc (heap w) = Inr (rematch p e, h')"
  shows "\<exists>bs. draw t e p sc w = Inr (post_draw p e, writestr (tty t) bs (w\<lparr>heap := h'\<rparr>))
           \<and> bs \<noteq> []"
proof -
  let ?e2 = "set_selected_clamped (rematch p e) (selected (rematch p e))"
  have e2: "?e2 = post_draw p e" by (simp add: post_draw_def)
  have wf: "wf_entries ?e2" "matches_inv ?e2"
    using assms(1) by (simp_all add: wf_rematch matches_inv_rematch)
  let ?w4 = "writestr (tty t) [CHR 0x0A] (writestr (tty t) p (writestr (tty t) ''>''
               (clear_screen t (w\<lparr>heap := h'\<rparr>))))"
  let ?i = "if selected ?e2 > height t - 3 then selected ?e2 - (height t - 3) else 0"
  have "0 \<le> ?i" by simp
  then obtain bs where dl: "draw_loop t ?e2 ?i 0 ?w4 = Inr (writestr (tty t) bs ?w4)"
    using draw_loop_ok[OF wf] by blast
  have "draw t e p sc w
          = (case draw_loop t ?e2 ?i 0 ?w4 of Inl f \<Rightarrow> Inl f | Inr w5 \<Rightarrow> Inr (?e2, w5))"
    unfolding draw_def Let_def u by simp
  then have "draw t e p sc w = Inr (?e2, writestr (tty t) bs ?w4)"
    unfolding dl by simp
  then have "draw t e p sc w
               = Inr (post_draw p e, writestr (tty t)
                    ((CHR 0x1B # ''[H'' @ CHR 0x1B # ''[2J'' @ CHR 0x1B # ''[3J'') @ ''>'' @ p
                      @ [CHR 0x0A] @ bs)
                    (w\<lparr>heap := h'\<rparr>))"
    unfolding e2 by (simp add: clear_screen_def)
  then show ?thesis by blast
qed

lemma draw_cases:
  assumes "wf_entries e"
  shows "draw t e p sc w = Inl (ERROR_EXIT ''out of memory'')
         \<or> (\<exists>h' bs. draw t e p sc w
               = Inr (post_draw p e, writestr (tty t) bs (w\<lparr>heap := h'\<rparr>)) \<and> bs \<noteq> [])"
  using update_matches_cases[OF assms, of p sc "heap w"]
proof
  assume "update_matches e p sc (heap w) = Inl (ERROR_EXIT ''out of memory'')"
  then show ?thesis by (simp add: draw_def)
next
  assume "\<exists>h'. update_matches e p sc (heap w) = Inr (rematch p e, h')"
  then show ?thesis using draw_after_update[OF assms] by blast
qed

lemma draw_ok:
  assumes "wf_entries e" "strlen p + 1 \<le> end' sc - beg sc"
  shows "\<exists>h' bs. draw t e p sc w
           = Inr (post_draw p e, writestr (tty t) bs (w\<lparr>heap := h'\<rparr>)) \<and> bs \<noteq> []"
  using update_matches_ok[OF assms, of "heap w"] draw_after_update[OF assms(1)] by blast

lemma post_draw_inv:
  "wf_entries e \<Longrightarrow>
   wf_entries (post_draw p e) \<and> matches_inv (post_draw p e) \<and> selected_inv (post_draw p e)"
  by (simp add: post_draw_def wf_rematch matches_inv_rematch selected_inv_clamp)

lemmas eval_simps =
  main_def startup_def key_def read_entries_def alloc_def c_div_def SIZEOF_Entries_def SIZEOF_charp_def SIZEOF_int_def
  SIZEOF_Terminal_def fullread_def c_int_def stdin_example_def is_delim_def NUL_def cstring_at_def
  Let_def get_terminal_def draw_def update_matches_def um_loop.simps draw_loop.simps
  is_match_def is_match_loop.simps xtolower_def schar_def char_of_def nth_opt_def
  set_selected_clamped_def clear_screen_def writestr_def set_terminal_mode_def cfmakeraw_def
  restore_terminal_mode_def MEMORY_MAX_def PATTERN_MAX_def strlen_def world_example_def
  main_loop.simps getch_def die_def finish_def redraw_def
  KEY_ENTER_def KEY_CTRLC_def KEY_BACKSPACE_def KEY_ESCAPE0_def KEY_ESCAPE1_def KEY_UP_def
  KEY_DOWN_def ch_isvalid_def select_next_def select_prev_def EXIT_SUCCESS_def EXIT_FAILURE_def
  selection_mark_def entries_example_def terminal_example_def

text \<open>
  C6. After every recomputation of the matches and every mutation of the selection,
  \<^verbatim>\<open>matches[0..matches_len)\<close> is a strictly increasing sequence of indices from
  \<^verbatim>\<open>[0, entries_len)\<close> (so \<^verbatim>\<open>matches_len <= entries_len\<close> and the order of the entries is
  kept), and whenever it is not empty \<^verbatim>\<open>selected\<close> lies in \<^verbatim>\<open>[0, matches_len - 1]\<close>.
  The recomputation is \<open>update_matches\<close>, which \<open>draw\<close> (its only caller) follows with
  the clamp at once; the selection is mutated by \<open>set_selected_clamped\<close>, directly or
  through \<open>select_next\<close> and \<open>select_prev\<close>. Neither \<open>update_matches\<close> nor \<open>draw\<close> leaves an
  array: they return normally or end the process with ``out of memory''.
\<close>

theorem matches_and_selection_invariant:
  assumes "wf_entries e"
  shows "(update_matches e p sc h = Inl (ERROR_EXIT ''out of memory'')
          \<or> (\<exists>e1 h1. update_matches e p sc h = Inr (e1, h1) \<and> wf_entries e1 \<and> matches_inv e1
                \<and> matches_inv (set_selected_clamped e1 n)
                \<and> selected_inv (set_selected_clamped e1 n)))
       \<and> (draw t e p sc w = Inl (ERROR_EXIT ''out of memory'')
          \<or> (\<exists>e2 w2. draw t e p sc w = Inr (e2, w2) \<and> wf_entries e2 \<and> matches_inv e2
                \<and> selected_inv e2))
       \<and> (matches_inv e \<longrightarrow>
            matches_inv (select_next e) \<and> selected_inv (select_next e)
            \<and> matches_inv (select_prev e) \<and> selected_inv (select_prev e))"
proof (intro conjI)
  show "update_matches e p sc h = Inl (ERROR_EXIT ''out of memory'')
          \<or> (\<exists>e1 h1. update_matches e p sc h = Inr (e1, h1) \<and> wf_entries e1 \<and> matches_inv e1
                \<and> matches_inv (set_selected_clamped e1 n)
                \<and> selected_inv (set_selected_clamped e1 n))"
    using update_matches_cases[OF assms, of p sc h]
    by (auto simp: wf_rematch matches_inv_rematch selected_inv_clamp assms)
  show "draw t e p sc w = Inl (ERROR_EXIT ''out of memory'')
          \<or> (\<exists>e2 w2. draw t e p sc w = Inr (e2, w2) \<and> wf_entries e2 \<and> matches_inv e2
                \<and> selected_inv e2)"
    using draw_cases[OF assms, of t p sc w] post_draw_inv[OF assms, of p] by auto
  show "matches_inv e \<longrightarrow>
            matches_inv (select_next e) \<and> selected_inv (select_next e)
            \<and> matches_inv (select_prev e) \<and> selected_inv (select_prev e)"
    by (simp add: select_next_eq select_prev_eq selected_inv_clamp)
qed

theorem matches_and_selection_invariant_witness:
  "wf_entries entries_example \<and> matches_inv entries_example
   \<and> (\<exists>e2 w2. draw terminal_example entries_example ''a'' \<lparr>beg = 0, end' = 100\<rparr> world_example
                 = Inr (e2, w2)
         \<and> the_matches e2 = [0, 2] \<and> selected e2 = 1 \<and> matches_inv e2 \<and> selected_inv e2)
   \<and> selected (select_prev entries_example) = 1 \<and> selected_inv (select_prev entries_example)
   \<and> selected (select_next entries_example) = 0 \<and> selected_inv (select_next entries_example)"
proof -
  have wf: "wf_entries entries_example"
    by (simp add: wf_entries_def entries_example_def)
  have mi: "matches_inv entries_example"
    by (simp add: matches_inv_def the_matches_def entries_example_def)
  have d: "\<exists>w2. draw terminal_example entries_example ''a'' \<lparr>beg = 0, end' = 100\<rparr> world_example
             = Inr (\<lparr>entries = [''Apple'', ''banana'', ''Avocado''], matches = [0, 2, 0],
                     entries_len = 3, matches_len = 2, selected = 1\<rparr>, w2)"
    by (simp add: eval_simps)
  have s: "selected (select_prev entries_example) = 1" "selected (select_next entries_example) = 0"
    by (simp_all add: eval_simps)
  show ?thesis
    using matches_and_selection_invariant[OF wf, of "''a''" "\<lparr>beg = 0, end' = 100\<rparr>"
        "heap world_example" 0 terminal_example world_example] wf mi d s
    by (auto simp: the_matches_def)
qed

subsection \<open>The loop and its invariant\<close>

lemma rematch_post_draw: "rematch p (post_draw p e) = post_draw p e"
  by (simp add: rematch_def post_draw_def set_selected_clamped_def)

lemma die_oom: "die (ERROR_EXIT m) w = Exit EXIT_FAILURE (writestr 2 (m @ [CHR 0x0A]) w)"
  by (simp add: die_def)

lemma redraw_after_draw:
  assumes "draw (trm s) (ents s) (cur_pattern s) (arena s) (restore_terminal_mode (trm s) (wld s))
             = Inr (post_draw (cur_pattern s) (ents s),
                    writestr (tty (trm s)) bs ((restore_terminal_mode (trm s) (wld s))\<lparr>heap := h'\<rparr>))"
    and "bs \<noteq> []"
  shows "\<exists>s1. redraw s rest = Next s1 rest \<and> redrawn s s1"
proof -
  let ?s1 = "s\<lparr>ents := post_draw (cur_pattern s) (ents s),
               trm := (trm s)\<lparr>original := original (trm s)\<rparr>,
               wld := (writestr (tty (trm s)) bs ((restore_terminal_mode (trm s) (wld s))\<lparr>heap := h'\<rparr>))
                        \<lparr>tty_attr := cfmakeraw (original (trm s))\<rparr>\<rparr>"
  have "redraw s rest = Next ?s1 rest"
    using assms(1)
    by (simp add: redraw_def cur_pattern_def set_terminal_mode_def Let_def restore_terminal_mode_def
        writestr_def)
  moreover have "redrawn s ?s1"
    using assms(2) by (auto simp: redrawn_def writestr_def restore_terminal_mode_def)
  ultimately show ?thesis by blast
qed

lemma redraw_cases:
  assumes "wf_entries (ents s)"
  shows "redraw s rest
           = Done (Exit EXIT_FAILURE (writestr 2 (''out of memory'' @ [CHR 0x0A])
                                        (restore_terminal_mode (trm s) (wld s))))
         \<or> (\<exists>s1. redraw s rest = Next s1 rest \<and> redrawn s s1)"
  using draw_cases[OF assms, of "trm s" "cur_pattern s" "arena s"
      "restore_terminal_mode (trm s) (wld s)"]
proof
  assume "draw (trm s) (ents s) (cur_pattern s) (arena s) (restore_terminal_mode (trm s) (wld s))
            = Inl (ERROR_EXIT ''out of memory'')"
  then show ?thesis by (simp add: redraw_def cur_pattern_def die_oom Let_def)
next
  assume "\<exists>h' bs. draw (trm s) (ents s) (cur_pattern s) (arena s)
                     (restore_terminal_mode (trm s) (wld s))
                   = Inr (post_draw (cur_pattern s) (ents s),
                          writestr (tty (trm s)) bs
                            ((restore_terminal_mode (trm s) (wld s))\<lparr>heap := h'\<rparr>)) \<and> bs \<noteq> []"
  then show ?thesis using redraw_after_draw by blast
qed

lemma redraw_ok:
  assumes "wf_entries (ents s)" "strlen (cur_pattern s) + 1 \<le> end' (arena s) - beg (arena s)"
  shows "\<exists>s1. redraw s rest = Next s1 rest \<and> redrawn s s1"
  using draw_ok[OF assms, of "trm s" "restore_terminal_mode (trm s) (wld s)"] redraw_after_draw
  by blast

lemma iteration_Next:
  assumes "iteration s inp = Next s' rest"
  shows "s' = s \<or> (\<exists>s1. edited s s1 \<and> redraw s1 rest = Next s' rest)"
proof (cases inp)
  case Nil
  then show ?thesis using assms by simp
next
  case (Cons r inp')
  have e0: "edited s s" by (simp add: edited_def)
  have e1: "edited s (s\<lparr>ents := select_next (ents s)\<rparr>)" by (simp add: edited_def)
  have e2: "edited s (s\<lparr>ents := select_prev (ents s)\<rparr>)" by (simp add: edited_def)
  have e3: "edited s (s\<lparr>pattern_len := (if pattern_len s - 1 > - 1 then pattern_len s - 1 else pattern_len s),
               pattern := take (nat (if pattern_len s - 1 > - 1 then pattern_len s - 1 else pattern_len s))
                            (pattern s)\<rparr>)"
    unfolding edited_def by blast
  have e4: "\<And>c. pattern_len s + 1 < PATTERN_MAX - 1 \<Longrightarrow>
              edited s (s\<lparr>pattern := take (nat (pattern_len s)) (pattern s) @ [c],
                     pattern_len := pattern_len s + 1\<rparr>)"
    unfolding edited_def by blast
  show ?thesis
  proof (cases "getch r")
    case (Inl f)
    then show ?thesis using assms Cons by simp
  next
    case (Inr ch)
    consider (enter) "KEY_ENTER = ch" | (ctrlc) "KEY_ENTER \<noteq> ch" "KEY_CTRLC = ch"
      | (bs) "KEY_ENTER \<noteq> ch" "KEY_CTRLC \<noteq> ch" "KEY_BACKSPACE = ch"
      | (esc) "KEY_ENTER \<noteq> ch" "KEY_CTRLC \<noteq> ch" "KEY_BACKSPACE \<noteq> ch" "KEY_ESCAPE0 = ch"
      | (other) "KEY_ENTER \<noteq> ch" "KEY_CTRLC \<noteq> ch" "KEY_BACKSPACE \<noteq> ch" "KEY_ESCAPE0 \<noteq> ch"
      by blast
    then show ?thesis
    proof cases
      case enter
      then show ?thesis using assms Cons Inr by (simp split: option.splits if_splits)
    next
      case ctrlc
      then show ?thesis using assms Cons Inr by simp
    next
      case bs
      then have "redraw (s\<lparr>pattern_len := (if pattern_len s - 1 > - 1 then pattern_len s - 1 else pattern_len s),
               pattern := take (nat (if pattern_len s - 1 > - 1 then pattern_len s - 1 else pattern_len s))
                            (pattern s)\<rparr>) inp' = Next s' rest"
        using assms Cons Inr by (simp add: Let_def)
      moreover have "rest = inp'"
        using calculation by (simp add: redraw_def Let_def split: sum.splits prod.splits)
      ultimately show ?thesis using e3 by blast
    next
      case esc
      show ?thesis
      proof (cases inp')
        case Nil
        then show ?thesis using assms Cons Inr esc by simp
      next
        case c2: (Cons r2 rest2)
        show ?thesis
        proof (cases "getch r2")
          case (Inl f)
          then show ?thesis using assms Cons Inr esc c2 by simp
        next
          case i2: (Inr ch2)
          show ?thesis
          proof (cases "KEY_ESCAPE1 = ch2")
            case False
            then have r: "redraw s rest2 = Next s' rest"
              using assms Cons Inr esc c2 i2 by simp
            then have "rest = rest2"
              by (simp add: redraw_def Let_def split: sum.splits prod.splits)
            then show ?thesis using r e0 by blast
          next
            case True
            show ?thesis
            proof (cases rest2)
              case Nil
              then show ?thesis using assms Cons Inr esc c2 i2 True by simp
            next
              case c3: (Cons r3 rest3)
              show ?thesis
              proof (cases "getch r3")
                case (Inl f)
                then show ?thesis using assms Cons Inr esc c2 i2 True c3 by simp
              next
                case i3: (Inr ch3)
                have "redraw s rest3 = Next s' rest
                      \<or> redraw (s\<lparr>ents := select_next (ents s)\<rparr>) rest3 = Next s' rest
                      \<or> redraw (s\<lparr>ents := select_prev (ents s)\<rparr>) rest3 = Next s' rest"
                  using assms Cons Inr esc c2 i2 True c3 i3 by (simp split: if_splits)
                moreover have "\<And>x. redraw x rest3 = Next s' rest \<Longrightarrow> rest = rest3"
                  by (simp add: redraw_def Let_def split: sum.splits prod.splits)
                ultimately show ?thesis using e0 e1 e2 by blast
              qed
            qed
          qed
        qed
      qed
    next
      case other
      show ?thesis
      proof (cases "ch_isvalid (char_of ch)")
        case False
        then show ?thesis using assms Cons Inr other by simp
      next
        case True
        then have lt: "pattern_len s + 1 < PATTERN_MAX - 1"
          and r: "redraw (s\<lparr>pattern := take (nat (pattern_len s)) (pattern s) @ [char_of ch],
                     pattern_len := pattern_len s + 1\<rparr>) inp' = Next s' rest"
          using assms Cons Inr other by (simp_all add: Let_def split: if_splits)
        have "rest = inp'"
          using r by (simp add: redraw_def Let_def split: sum.splits prod.splits)
        then show ?thesis using r e4[OF lt] by blast
      qed
    qed
  qed
qed


lemma wf_entries_edited: "edited s s1 \<Longrightarrow> wf_entries (ents s) \<Longrightarrow> wf_entries (ents s1)"
  by (auto simp: edited_def select_next_eq select_prev_eq)

lemma loop_inv_redrawn:
  assumes inv: "loop_inv w0 s" and ed: "edited s s1" and rd: "redrawn s1 s'"
  shows "loop_inv w0 s'"
proof -
  have wf1: "wf_entries (ents s1)"
    using wf_entries_edited[OF ed] inv by (simp add: loop_inv_def)
  have e': "ents s' = post_draw (cur_pattern s1) (ents s1)"
    and cp: "cur_pattern s' = cur_pattern s1"
    using rd by (simp_all add: redrawn_def cur_pattern_def)
  have a: "wf_entries (ents s') \<and> matches_inv (ents s') \<and> selected_inv (ents s')"
    unfolding e' by (rule post_draw_inv[OF wf1])
  have b: "rematch (cur_pattern s') (ents s') = ents s'"
    unfolding e' cp by (rule rematch_post_draw)
  have pl: "pattern_len s = int (length (pattern s))" "pattern_len s < PATTERN_MAX - 1"
    using inv by (simp_all add: loop_inv_def)
  have c: "pattern_len s1 = int (length (pattern s1)) \<and> pattern_len s1 < PATTERN_MAX - 1"
    using ed pl by (auto simp: edited_def)
  have d: "selected_entry s1 = None \<and> trm s1 = trm s \<and> wld s1 = wld s"
    using ed inv by (auto simp: edited_def loop_inv_def)
  have o: "\<forall>fd. fd \<noteq> tty (trm s') \<longrightarrow> out (wld s') fd = out w0 fd"
    using rd d inv by (auto simp: redrawn_def loop_inv_def)
  show ?thesis
    using a b c d o rd inv by (simp add: loop_inv_def redrawn_def)
qed

lemma loop_inv_step:
  assumes inv: "loop_inv w0 s" and it: "iteration s inp = Next s' rest"
  shows "loop_inv w0 s'"
  using iteration_Next[OF it]
proof
  assume "s' = s"
  then show ?thesis using inv by simp
next
  assume "\<exists>s1. edited s s1 \<and> redraw s1 rest = Next s' rest"
  then obtain s1 where ed: "edited s s1" and r: "redraw s1 rest = Next s' rest" by blast
  have "wf_entries (ents s1)"
    using wf_entries_edited[OF ed] inv by (simp add: loop_inv_def)
  then have "redrawn s1 s'"
    using redraw_cases[of s1 rest] r by auto
  then show ?thesis by (rule loop_inv_redrawn[OF inv ed])
qed

lemma reachable_inv: "reachable s0 s \<Longrightarrow> loop_inv w0 s0 \<Longrightarrow> loop_inv w0 s"
  by (induction rule: reachable.induct) (auto intro: loop_inv_step)

lemma chop_count:
  assumes "chop_loop input 0 0 = (buf, ptrs)"
  shows "count_loop input 0 0 = int (length ptrs)"
proof -
  have "map (cstring_at ([] @ [] @ buf)) ptrs = runs_acc [] input"
    by (rule chop_loop_runs) (simp_all add: assms)
  then have "length ptrs = length (runs_acc [] input)"
    by (metis length_map)
  then show ?thesis using count_loop_runs[of input "[]" 0] by simp
qed

lemma read_entries_wf:
  assumes "read_entries h ar stdin = Inr (e, h', ar')"
  shows "wf_entries e \<and> matches_len e = 0 \<and> selected e = 0"
  using assms
  by (auto simp: read_entries_def Let_def wf_entries_def chop_count
      split: sum.splits prod.splits if_splits)

lemma get_terminal_tty:
  "get_terminal h ar fd rows = Inr (t, h', ar') \<Longrightarrow> tty t = fd"
  by (auto simp: get_terminal_def Let_def split: sum.splits prod.splits if_splits)

lemma startup_inv:
  assumes "startup mr w stdin fd rows = Inr s0"
  shows "loop_inv w s0 \<and> pattern s0 = [] \<and> pattern_len s0 = 0 \<and> tty (trm s0) = fd"
proof -
  let ?a0 = "case mr of None \<Rightarrow> \<lparr>beg = 16, end' = 16\<rparr> | Some p \<Rightarrow> \<lparr>beg = p, end' = p + MEMORY_MAX\<rparr>"
  from assms obtain e h1 a1 where re: "read_entries (heap w) ?a0 stdin = Inr (e, h1, a1)"
    by (auto simp: startup_def Let_def split: sum.splits prod.splits)
  from assms re obtain t h2 a2 where gt: "get_terminal h1 a1 fd rows = Inr (t, h2, a2)"
    by (auto simp: startup_def Let_def split: sum.splits prod.splits)
  from assms re gt obtain e1 w1 where dr: "draw t e [] a2 (w\<lparr>heap := h2\<rparr>) = Inr (e1, w1)"
    by (auto simp: startup_def Let_def split: sum.splits prod.splits)
  from assms re gt dr obtain p h3 a3 where
    s0: "s0 = \<lparr>pattern = [], pattern_len = 0, selected_entry = None, arena = a3, ents = e1,
              trm = t\<lparr>original := tty_attr w1\<rparr>,
              wld = w1\<lparr>tty_attr := cfmakeraw (tty_attr w1), heap := h3\<rparr>\<rparr>"
    by (auto simp: startup_def Let_def set_terminal_mode_def split: sum.splits prod.splits)
  have wf: "wf_entries e" using read_entries_wf[OF re] by simp
  obtain h' bs where e1: "e1 = post_draw [] e"
    and w1: "w1 = writestr (tty t) bs (w\<lparr>heap := h2, heap := h'\<rparr>)"
    using draw_cases[OF wf, of t "[]" a2 "w\<lparr>heap := h2\<rparr>"] dr by auto
  have t: "tty t = fd" by (rule get_terminal_tty[OF gt])
  have "wf_entries e1 \<and> matches_inv e1 \<and> selected_inv e1"
    unfolding e1 by (rule post_draw_inv[OF wf])
  moreover have "rematch [] e1 = e1" unfolding e1 by (rule rematch_post_draw)
  ultimately show ?thesis
    using t by (simp add: s0 w1 loop_inv_def cur_pattern_def PATTERN_MAX_def)
qed


subsection \<open>Confirming and cancelling\<close>

lemma getch_key [simp]: "getch (key c) = Inr (of_char c)"
  by (simp add: getch_def key_def)

lemma selected_lookup:
  assumes wf: "wf_entries e" and mi: "matches_inv e" and si: "selected_inv e"
    and m: "0 < matches_len e"
  shows "0 \<le> selected e \<and> selected e < matches_len e
         \<and> nth_opt (matches e) (selected e) = Some (matches e ! nat (selected e))
         \<and> 0 \<le> matches e ! nat (selected e) \<and> matches e ! nat (selected e) < entries_len e
         \<and> nth_opt (entries e) (matches e ! nat (selected e))
             = Some (entries e ! nat (matches e ! nat (selected e)))"
proof -
  have len: "int (length (entries e)) = entries_len e" "length (matches e) = length (entries e)"
    using wf by (simp_all add: wf_entries_def)
  have sel: "0 \<le> selected e" "selected e < matches_len e"
    using si m by (simp_all add: selected_inv_def)
  have ml: "matches_len e \<le> int (length (matches e))"
    using mi len by (simp add: matches_inv_def)
  have il1: "nat (selected e) < length (matches e)" and il2: "nat (selected e) < nat (matches_len e)"
    using sel ml by simp_all
  have "the_matches e ! nat (selected e) = matches e ! nat (selected e)"
    using il2 by (simp add: the_matches_def)
  moreover have "nat (selected e) < length (the_matches e)"
    using il1 il2 by (simp add: the_matches_def)
  ultimately have "matches e ! nat (selected e) \<in> set (the_matches e)"
    by (metis nth_mem)
  then have rng: "0 \<le> matches e ! nat (selected e) \<and> matches e ! nat (selected e) < entries_len e"
    using mi by (simp add: matches_inv_def)
  have n1: "nth_opt (matches e) (selected e) = Some (matches e ! nat (selected e))"
    using il1 sel by (simp add: nth_opt_def)
  have n2: "nth_opt (entries e) (matches e ! nat (selected e))
              = Some (entries e ! nat (matches e ! nat (selected e)))"
    using rng len by (simp add: nth_opt_def)
  show ?thesis using sel rng n1 n2 by simp
qed

declare iteration.simps(2) [simp del]

lemma iteration_Enter:
  "iteration s (Enter # rest) =
     (if matches_len (ents s) > 0 then
        (case nth_opt (matches (ents s)) (selected (ents s)) of
           None \<Rightarrow> Done Undefined
         | Some i \<Rightarrow>
             (case nth_opt (entries (ents s)) i of
                None \<Rightarrow> Done Undefined
              | Some str \<Rightarrow> Done (finish (s\<lparr>selected_entry := Some str\<rparr>))))
      else Done (finish s))"
  by (simp add: iteration.simps Enter_def KEY_ENTER_def)

lemma iteration_CtrlC: "iteration s (CtrlC # rest) = Done (finish s)"
  by (simp add: iteration.simps CtrlC_def KEY_ENTER_def KEY_CTRLC_def)

lemma reachable_first:
  "reachable s2 s1 \<Longrightarrow> iteration s inp = Next s2 rest \<Longrightarrow> reachable s s1"
proof (induction rule: reachable.induct)
  case start
  then show ?case by (blast intro: reachable.intros)
next
  case (step s3 inp' s4 rest')
  then show ?case by (blast intro: reachable.intros)
qed

lemma iteration_Blocked: "iteration s inp = Done (Blocked s1) \<Longrightarrow> s1 = s"
  by (cases inp)
    (auto simp: iteration.simps Let_def redraw_def die_def finish_def
      split: sum.splits if_splits option.splits list.splits prod.splits failure.splits)

lemma blocked_reachable:
  "main_loop s keys = Blocked s1 \<Longrightarrow> reachable s s1"
proof (induction s keys rule: main_loop.induct)
  case (1 s inp)
  show ?case
  proof (cases "iteration s inp")
    case (Done r)
    then have "r = Blocked s1" using "1.prems" by (subst (asm) main_loop.simps) simp
    then have "s1 = s" using Done iteration_Blocked by blast
    then show ?thesis by (simp add: reachable.start)
  next
    case (Next s2 rest)
    then have "main_loop s2 rest = Blocked s1" using "1.prems" by (subst (asm) main_loop.simps) simp
    then have "reachable s2 s1" using "1.IH"[OF Next] by simp
    then show ?thesis using Next by (rule reachable_first)
  qed
qed

text \<open>
  C9. In every state at the head of the loop that a script of reads leads to from the
  state the loop starts in (after the initial draw), if \<^verbatim>\<open>matches_len > 0\<close> then
  \<^verbatim>\<open>selected\<close> is in \<^verbatim>\<open>[0, matches_len)\<close>, \<^verbatim>\<open>matches[selected]\<close> is in
  \<^verbatim>\<open>[0, entries_len)\<close>, both lookups that Enter performs are inside their arrays (the
  indexing of the embedding returns \<open>Some\<close>), and Enter ends the loop with that entry
  selected.
\<close>

theorem lookup_in_bounds_on_enter:
  assumes st: "startup mr w stdin fd rows = Inr s0" and r: "reachable s0 s"
    and m: "matches_len (ents s) > 0"
  shows "0 \<le> selected (ents s) \<and> selected (ents s) < matches_len (ents s)
         \<and> (\<exists>i str. nth_opt (matches (ents s)) (selected (ents s)) = Some i
               \<and> 0 \<le> i \<and> i < entries_len (ents s)
               \<and> nth_opt (entries (ents s)) i = Some str
               \<and> iteration s (Enter # rest) = Done (finish (s\<lparr>selected_entry := Some str\<rparr>)))"
proof -
  have "loop_inv w s" using reachable_inv[OF r] startup_inv[OF st] by simp
  then have "wf_entries (ents s)" "matches_inv (ents s)" "selected_inv (ents s)"
    by (simp_all add: loop_inv_def)
  from selected_lookup[OF this m] show ?thesis
    using m by (simp add: iteration_Enter)
qed


lemmas run_simps = eval_simps iteration.simps(2) Enter_def CtrlC_def Escape_def

lemma die_cases: "die f w = Undefined \<or> (\<exists>w1. die f w = Exit EXIT_FAILURE w1)"
  by (cases f) (simp_all add: die_def)

lemma main_Blocked:
  assumes "main mr w stdin fd rows keys = Blocked s"
  shows "\<exists>s0. startup mr w stdin fd rows = Inr s0 \<and> main_loop s0 keys = Blocked s"
proof (cases "startup mr w stdin fd rows")
  case (Inl a)
  obtain f w1 where "a = (f, w1)" by (cases a)
  then show ?thesis using assms Inl die_cases[of f w1] by (auto simp: main_def)
next
  case (Inr s0)
  then show ?thesis using assms by (simp add: main_def)
qed

theorem lookup_in_bounds_on_enter_witness:
  "\<exists>s0 s. startup (Some 0) world_example stdin_example 3 24 = Inr s0 \<and> reachable s0 s
      \<and> matches_len (ents s) > 0 \<and> pattern s = ''a'' \<and> selected (ents s) = 0
      \<and> nth_opt (matches (ents s)) (selected (ents s)) = Some 1
      \<and> nth_opt (entries (ents s)) 1 = Some ''Aa''
      \<and> iteration s [Enter] = Done (finish (s\<lparr>selected_entry := Some ''Aa''\<rparr>))"
proof -
  have "\<exists>s. main (Some 0) world_example stdin_example 3 24 [key CHR ''a''] = Blocked s
          \<and> matches_len (ents s) > 0 \<and> pattern s = ''a'' \<and> selected (ents s) = 0
          \<and> nth_opt (matches (ents s)) 0 = Some 1 \<and> nth_opt (entries (ents s)) 1 = Some ''Aa''"
    by (simp add: run_simps)
  then obtain s where m: "main (Some 0) world_example stdin_example 3 24 [key CHR ''a''] = Blocked s"
    and f: "matches_len (ents s) > 0" "pattern s = ''a''" "selected (ents s) = 0"
      "nth_opt (matches (ents s)) 0 = Some 1" "nth_opt (entries (ents s)) 1 = Some ''Aa''"
    by blast
  obtain s0 where st: "startup (Some 0) world_example stdin_example 3 24 = Inr s0"
    and ml: "main_loop s0 [key CHR ''a''] = Blocked s"
    using main_Blocked[OF m] by blast
  have r: "reachable s0 s" by (rule blocked_reachable[OF ml])
  show ?thesis
    using lookup_in_bounds_on_enter[OF st r f(1), of "[]"] st r f by auto
qed

lemma finish_obs:
  "exit_status (finish s) = Some EXIT_SUCCESS"
  "exit_attr (finish s) = Some (original (trm s))"
  "exit_out (finish s) 1 = Some (out (wld s) 1 @ (case selected_entry s of None \<Rightarrow> [] | Some str \<Rightarrow> str))"
  by (simp_all add: finish_def exit_status_def exit_attr_def exit_out_def restore_terminal_mode_def
      writestr_def Let_def split: option.splits)

lemma main_loop_Done: "iteration s inp = Done r \<Longrightarrow> main_loop s inp = r"
  by (subst main_loop.simps) simp

lemma main_loop_Next: "iteration s inp = Next s1 rest \<Longrightarrow> main_loop s inp = main_loop s1 rest"
  by (subst main_loop.simps) simp

lemma step_constants:
  assumes inv: "loop_inv w0 s" and it: "iteration s inp = Next s' rest"
  shows "trm s' = trm s \<and> arena s' = arena s \<and> entries (ents s') = entries (ents s)"
  using iteration_Next[OF it]
proof
  assume "s' = s"
  then show ?thesis by simp
next
  assume "\<exists>s1. edited s s1 \<and> redraw s1 rest = Next s' rest"
  then obtain s1 where ed: "edited s s1" and r: "redraw s1 rest = Next s' rest" by blast
  have "wf_entries (ents s1)"
    using wf_entries_edited[OF ed] inv by (simp add: loop_inv_def)
  then have "redrawn s1 s'"
    using redraw_cases[of s1 rest] r by auto
  moreover have "trm s1 = trm s \<and> arena s1 = arena s \<and> entries (ents s1) = entries (ents s)"
    using ed by (auto simp: edited_def select_next_eq select_prev_eq)
  ultimately show ?thesis by (simp add: redrawn_def post_draw_def)
qed

lemma reachable_constants:
  "reachable s0 s \<Longrightarrow> loop_inv w0 s0 \<Longrightarrow>
   trm s = trm s0 \<and> arena s = arena s0 \<and> entries (ents s) = entries (ents s0)"
proof (induction rule: reachable.induct)
  case start
  then show ?case by simp
next
  case (step s inp s1 rest)
  then have "loop_inv w0 s" using reachable_inv by blast
  then show ?case using step step_constants by metis
qed

text \<open>
  C8. From any state of the loop, with the terminal on a descriptor other than 1:
  Enter while there is a match ends the process with success status after writing
  exactly the bytes of the entry \<^verbatim>\<open>entries[matches[selected]]\<close> to standard output,
  with nothing added (the loop itself never writes to descriptor 1, so \<open>out w 1\<close>, what
  descriptor 1 held at the start, is all that precedes them); Enter without a match
  and Ctrl-C end it with success status and nothing written to standard output.
\<close>

theorem confirmed_and_cancelled_output:
  assumes st: "startup mr w stdin fd rows = Inr s0" and fd: "fd \<noteq> 1" and r: "reachable s0 s"
  shows "(matches_len (ents s) > 0 \<longrightarrow>
            (\<exists>i str. nth_opt (matches (ents s)) (selected (ents s)) = Some i
               \<and> nth_opt (entries (ents s)) i = Some str
               \<and> exit_status (main_loop s (Enter # rest)) = Some EXIT_SUCCESS
               \<and> exit_out (main_loop s (Enter # rest)) 1 = Some (out w 1 @ str)))
       \<and> (\<not> matches_len (ents s) > 0 \<longrightarrow>
            exit_status (main_loop s (Enter # rest)) = Some EXIT_SUCCESS
            \<and> exit_out (main_loop s (Enter # rest)) 1 = Some (out w 1))
       \<and> exit_status (main_loop s (CtrlC # rest)) = Some EXIT_SUCCESS
       \<and> exit_out (main_loop s (CtrlC # rest)) 1 = Some (out w 1)"
proof -
  have "loop_inv w s0" "tty (trm s0) = fd" using startup_inv[OF st] by simp_all
  then have inv: "loop_inv w s" using reachable_inv[OF r] by simp
  have "tty (trm s) = fd"
    using reachable_constants[OF r \<open>loop_inv w s0\<close>] \<open>tty (trm s0) = fd\<close> by simp
  then have o: "out (wld s) 1 = out w 1" using inv fd by (simp add: loop_inv_def)
  have se: "selected_entry s = None" using inv by (simp add: loop_inv_def)
  have c: "main_loop s (CtrlC # rest) = finish s"
    by (rule main_loop_Done) (rule iteration_CtrlC)
  have e0: "\<not> matches_len (ents s) > 0 \<Longrightarrow> main_loop s (Enter # rest) = finish s"
    by (rule main_loop_Done) (simp add: iteration_Enter)
  have e1: "matches_len (ents s) > 0 \<Longrightarrow>
              \<exists>i str. nth_opt (matches (ents s)) (selected (ents s)) = Some i
                 \<and> nth_opt (entries (ents s)) i = Some str
                 \<and> main_loop s (Enter # rest) = finish (s\<lparr>selected_entry := Some str\<rparr>)"
  proof -
    assume m: "matches_len (ents s) > 0"
    have "wf_entries (ents s)" "matches_inv (ents s)" "selected_inv (ents s)"
      using inv by (simp_all add: loop_inv_def)
    from selected_lookup[OF this m] show ?thesis
      using m by (auto intro!: main_loop_Done simp: iteration_Enter)
  qed
  show ?thesis
    using c e0 e1 o se by (auto simp: finish_obs)
qed


theorem confirmed_and_cancelled_output_witness:
  "\<exists>s0 s s1. startup (Some 0) world_example stdin_example 3 24 = Inr s0 \<and> (3::int) \<noteq> 1
      \<and> reachable s0 s \<and> matches_len (ents s) > 0
      \<and> exit_status (main_loop s [Enter]) = Some EXIT_SUCCESS
      \<and> exit_out (main_loop s [Enter]) 1 = Some ''Aa''
      \<and> reachable s0 s1 \<and> \<not> matches_len (ents s1) > 0
      \<and> exit_status (main_loop s1 [Enter]) = Some EXIT_SUCCESS
      \<and> exit_out (main_loop s1 [Enter]) 1 = Some []
      \<and> exit_status (main_loop s1 [CtrlC]) = Some EXIT_SUCCESS
      \<and> exit_out (main_loop s1 [CtrlC]) 1 = Some []"
proof -
  have "\<exists>s. main (Some 0) world_example stdin_example 3 24 [key CHR ''a''] = Blocked s
          \<and> matches_len (ents s) > 0 \<and> selected (ents s) = 0
          \<and> nth_opt (matches (ents s)) 0 = Some 1 \<and> nth_opt (entries (ents s)) 1 = Some ''Aa''"
    by (simp add: run_simps)
  then obtain s where m: "main (Some 0) world_example stdin_example 3 24 [key CHR ''a''] = Blocked s"
    and f: "matches_len (ents s) > 0" "selected (ents s) = 0"
      "nth_opt (matches (ents s)) 0 = Some 1" "nth_opt (entries (ents s)) 1 = Some ''Aa''"
    by blast
  have "\<exists>s1. main (Some 0) world_example stdin_example 3 24 [key CHR ''z''] = Blocked s1
          \<and> \<not> matches_len (ents s1) > 0"
    by (simp add: run_simps)
  then obtain s1 where m1: "main (Some 0) world_example stdin_example 3 24 [key CHR ''z''] = Blocked s1"
    and f1: "\<not> matches_len (ents s1) > 0"
    by blast
  obtain s0 where st: "startup (Some 0) world_example stdin_example 3 24 = Inr s0"
    and ml: "main_loop s0 [key CHR ''a''] = Blocked s"
    using main_Blocked[OF m] by blast
  have ml1: "main_loop s0 [key CHR ''z''] = Blocked s1"
    using main_Blocked[OF m1] st by simp
  have r: "reachable s0 s" by (rule blocked_reachable[OF ml])
  have r1: "reachable s0 s1" by (rule blocked_reachable[OF ml1])
  have fd: "(3::int) \<noteq> 1" by simp
  have o: "out world_example 1 = []" by (simp add: world_example_def)
  show ?thesis
    using confirmed_and_cancelled_output[OF st fd r, of "[]"]
      confirmed_and_cancelled_output[OF st fd r1, of "[]"] st r r1 f f1 o
    by (intro exI[of _ s0] exI[of _ s] exI[of _ s1]) auto
qed


subsection \<open>Leaving the terminal\<close>

lemma redraw_Done: "redraw s rest = Done r \<Longrightarrow> r = Undefined \<or> (\<exists>w1. r = Exit EXIT_FAILURE w1)"
  using die_cases
  by (auto simp: redraw_def Let_def split: sum.splits prod.splits)

lemma iteration_Done_cases:
  assumes "iteration s inp = Done r"
  shows "r = Blocked s \<or> r = Undefined \<or> (\<exists>w1. r = Exit EXIT_FAILURE w1) \<or> r = finish s
         \<or> (\<exists>str. r = finish (s\<lparr>selected_entry := Some str\<rparr>))"
proof (cases inp)
  case Nil
  then show ?thesis using assms by simp
next
  case (Cons k inp')
  show ?thesis
    using assms die_cases unfolding Cons
    by (auto simp: iteration.simps Let_def dest!: redraw_Done
        split: sum.splits if_splits option.splits list.splits)
qed

lemma exit_obs_simps [simp]:
  "exit_status (Blocked s) = None" "exit_status Undefined = None" "exit_status (Exit st w) = Some st"
  "exit_attr (Blocked s) = None" "exit_attr Undefined = None" "exit_attr (Exit st w) = Some (tty_attr w)"
  "exit_out (Blocked s) fd = None" "exit_out Undefined fd = None" "exit_out (Exit st w) fd = Some (out w fd)"
  by (simp_all add: exit_status_def exit_attr_def exit_out_def)

lemma main_loop_success_attr:
  assumes "loop_inv w0 s" "exit_status (main_loop s keys) = Some EXIT_SUCCESS"
  shows "exit_attr (main_loop s keys) = Some (tty_attr w0)"
  using assms
proof (induction s keys rule: main_loop.induct)
  case (1 s inp)
  show ?case
  proof (cases "iteration s inp")
    case (Done r)
    then have m: "main_loop s inp = r" by (rule main_loop_Done)
    have o: "original (trm s) = tty_attr w0" using "1.prems"(1) by (simp add: loop_inv_def)
    show ?thesis
      using iteration_Done_cases[OF Done] "1.prems"(2) o unfolding m
      by (auto simp: finish_obs EXIT_SUCCESS_def EXIT_FAILURE_def)
  next
    case (Next s1 rest)
    then have m: "main_loop s inp = main_loop s1 rest" by (rule main_loop_Next)
    have "loop_inv w0 s1" using loop_inv_step[OF "1.prems"(1) Next] .
    then show ?thesis using "1.IH"[OF Next] "1.prems"(2) unfolding m by simp
  qed
qed

text \<open>
  C3, amended: on every exit path that ends with success status, that is normal
  confirmation and cancellation (the code after the label \<^verbatim>\<open>end:\<close>), the terminal
  attributes are restored to those the terminal had at startup before the process
  exits. (\<open>ERROR_EXIT\<close> restores nothing: a forced termination leaves the terminal as it
  is at that moment.)
\<close>

theorem terminal_restored_on_success:
  assumes "exit_status (main mr w stdin fd rows keys) = Some EXIT_SUCCESS"
  shows "exit_attr (main mr w stdin fd rows keys) = Some (tty_attr w)"
proof (cases "startup mr w stdin fd rows")
  case (Inl a)
  obtain f w1 where "a = (f, w1)" by (cases a)
  then have "main mr w stdin fd rows keys = die f w1" using Inl by (simp add: main_def)
  then show ?thesis
    using assms die_cases[of f w1] by (auto simp: EXIT_SUCCESS_def EXIT_FAILURE_def)
next
  case (Inr s0)
  then have m: "main mr w stdin fd rows keys = main_loop s0 keys" by (simp add: main_def)
  have "loop_inv w s0" using startup_inv[OF Inr] by simp
  then show ?thesis using main_loop_success_attr assms unfolding m by blast
qed

theorem terminal_restored_on_success_witness:
  "exit_status (main (Some 0) world_example stdin_example 3 24 [Enter]) = Some EXIT_SUCCESS
   \<and> exit_attr (main (Some 0) world_example stdin_example 3 24 [Enter]) = Some (Termios False 0)"
proof -
  have h: "exit_status (main (Some 0) world_example stdin_example 3 24 [Enter]) = Some EXIT_SUCCESS"
    by (simp add: run_simps)
  show ?thesis
    using terminal_restored_on_success[OF h] h by (simp add: world_example_def)
qed

text \<open>
  C3 as stated: on every exit path, the forced terminations included, the terminal
  attributes are restored to those captured at startup before the process exits. It
  fails: \<open>ERROR_EXIT\<close> writes its message and exits without calling
  \<open>restore_terminal_mode\<close>. When the first read of a key fails, the process ends with
  failure status and ``tty input error'' on descriptor 2, and the terminal, which was
  not in raw mode at the start, is left in raw mode.
\<close>

theorem fatal_exit_leaves_raw_mode:
  "tty_attr world_example = Termios False 0
   \<and> exit_status (main (Some 0) world_example stdin_example 3 24 [Tty_read (- 1) NUL])
       = Some EXIT_FAILURE
   \<and> exit_out (main (Some 0) world_example stdin_example 3 24 [Tty_read (- 1) NUL]) 2
       = Some (''tty input error'' @ [CHR 0x0A])
   \<and> exit_attr (main (Some 0) world_example stdin_example 3 24 [Tty_read (- 1) NUL])
       = Some (Termios True 0)"
  by (simp add: run_simps)


subsection \<open>Escape sequences\<close>

lemma iteration_escape_other:
  assumes "n \<noteq> - 1" "of_char b \<noteq> KEY_ESCAPE1"
  shows "iteration s (Escape # Tty_read n b # rest) = redraw s rest"
  using assms
  by (simp add: iteration.simps Escape_def getch_def key_def KEY_ENTER_def KEY_CTRLC_def KEY_BACKSPACE_def
      KEY_ESCAPE0_def)

lemma iteration_escape_bracket_other:
  assumes "n \<noteq> - 1" "of_char c \<noteq> KEY_UP" "of_char c \<noteq> KEY_DOWN"
  shows "iteration s (Escape # key CHR ''['' # Tty_read n c # rest) = redraw s rest"
  using assms
  by (simp add: iteration.simps Escape_def getch_def key_def KEY_ENTER_def KEY_CTRLC_def KEY_BACKSPACE_def
      KEY_ESCAPE0_def KEY_ESCAPE1_def)

lemma redraw_unchanged:
  assumes inv: "loop_inv w0 s"
    and room: "strlen (cur_pattern s) + 1 \<le> end' (arena s) - beg (arena s)"
  shows "unchanged_redrawn s rest (redraw s rest)"
proof -
  have wf: "wf_entries (ents s)" and cur: "rematch (cur_pattern s) (ents s) = ents s"
    and si: "selected_inv (ents s)"
    using inv by (simp_all add: loop_inv_def)
  obtain s1 where r: "redraw s rest = Next s1 rest" and rd: "redrawn s s1"
    using redraw_ok[OF wf room] by blast
  have e: "ents s1 = set_selected_clamped (ents s) (selected (ents s))"
    using rd cur by (simp add: redrawn_def post_draw_def)
  have sel: "matches_len (ents s) > 0 \<longrightarrow> selected (ents s1) = selected (ents s)"
    using si unfolding e by (auto simp: selected_inv_def set_selected_clamped_def)
  have f: "entries (ents s1) = entries (ents s)" "entries_len (ents s1) = entries_len (ents s)"
    "matches (ents s1) = matches (ents s)" "matches_len (ents s1) = matches_len (ents s)"
    unfolding e by simp_all
  have p: "pattern s1 = pattern s" "pattern_len s1 = pattern_len s"
    using rd by (simp_all add: redrawn_def)
  obtain bs where b: "bs \<noteq> []" "out (wld s1) (tty (trm s)) = out (wld s) (tty (trm s)) @ bs"
    using rd by (auto simp: redrawn_def)
  show ?thesis
    unfolding unchanged_redrawn_def
    using r f p sel b by blast
qed

text \<open>
  C4, amended: in every state of the loop in which the redraw's scratch allocation
  succeeds, an escape byte followed by a byte other than \<^verbatim>\<open>'['\<close>, or by \<^verbatim>\<open>'['\<close> and a
  byte that is neither the Up nor the Down code, changes neither the pattern nor the
  entries nor the matches, nor the selection when there is a match; the screen is
  redrawn all the same (the iteration falls through to the redraw at the end of the
  loop body, which writes to the terminal).
\<close>

theorem ignored_escape_redraws:
  assumes st: "startup mr w stdin fd rows = Inr s0" and r: "reachable s0 s"
    and room: "strlen (cur_pattern s) + 1 \<le> end' (arena s) - beg (arena s)"
    and n: "n \<noteq> - 1"
  shows "(of_char b \<noteq> KEY_ESCAPE1 \<longrightarrow>
            unchanged_redrawn s rest (iteration s (Escape # Tty_read n b # rest)))
       \<and> (of_char c \<noteq> KEY_UP \<and> of_char c \<noteq> KEY_DOWN \<longrightarrow>
            unchanged_redrawn s rest (iteration s (Escape # key CHR ''['' # Tty_read n c # rest)))"
proof -
  have "loop_inv w s" using reachable_inv[OF r] startup_inv[OF st] by simp
  then have "unchanged_redrawn s rest (redraw s rest)"
    using room by (rule redraw_unchanged)
  then show ?thesis
    using n by (simp add: iteration_escape_other iteration_escape_bracket_other)
qed

theorem ignored_escape_redraws_witness:
  "\<exists>s0. startup (Some 0) world_example stdin_example 3 24 = Inr s0 \<and> reachable s0 s0
      \<and> strlen (cur_pattern s0) + 1 \<le> end' (arena s0) - beg (arena s0)
      \<and> (1::int) \<noteq> - 1
      \<and> of_char CHR ''x'' \<noteq> KEY_ESCAPE1
      \<and> unchanged_redrawn s0 [] (iteration s0 [Escape, Tty_read 1 CHR ''x''])
      \<and> of_char CHR ''C'' \<noteq> KEY_UP \<and> of_char CHR ''C'' \<noteq> KEY_DOWN
      \<and> unchanged_redrawn s0 [] (iteration s0 [Escape, key CHR ''['', Tty_read 1 CHR ''C''])"
proof -
  have "\<exists>s0. startup (Some 0) world_example stdin_example 3 24 = Inr s0
          \<and> strlen (cur_pattern s0) + 1 \<le> end' (arena s0) - beg (arena s0)"
    by (simp add: run_simps cur_pattern_def)
  then obtain s0 where st: "startup (Some 0) world_example stdin_example 3 24 = Inr s0"
    and room: "strlen (cur_pattern s0) + 1 \<le> end' (arena s0) - beg (arena s0)"
    by blast
  have r: "reachable s0 s0" by (rule reachable.start)
  have n: "(1::int) \<noteq> - 1" by simp
  have k: "of_char CHR ''x'' \<noteq> KEY_ESCAPE1" "of_char CHR ''C'' \<noteq> KEY_UP"
    "of_char CHR ''C'' \<noteq> KEY_DOWN"
    by (simp_all add: KEY_ESCAPE1_def KEY_UP_def KEY_DOWN_def)
  show ?thesis
    using ignored_escape_redraws[OF st r room n, of "CHR ''x''" "[]" "CHR ''C''"] st r room k
    by (intro exI[of _ s0]) simp
qed

text \<open>
  C4 as stated: such a sequence is ignored silently, no state changes and no redraw
  occurs. It fails: after startup on the example input the terminal holds one screen;
  after Escape and \<^verbatim>\<open>'x'\<close> it holds that screen twice. And with no match (after typing
  \<^verbatim>\<open>'z'\<close>) the redraw's clamp moves \<^verbatim>\<open>selected\<close> from -1 to 0.
\<close>

theorem ignored_escape_is_redrawn:
  "screen_of (main (Some 0) world_example stdin_example 3 24 []) = Some screen_example
   \<and> screen_of (main (Some 0) world_example stdin_example 3 24 [Escape, key CHR ''x''])
       = Some (screen_example @ screen_example)
   \<and> screen_example \<noteq> []
   \<and> selected_of (main (Some 0) world_example stdin_example 3 24 [key CHR ''z'']) = Some (- 1)
   \<and> selected_of (main (Some 0) world_example stdin_example 3 24
                     [key CHR ''z'', Escape, key CHR ''x''])
       = Some 0"
  by (simp add: run_simps screen_of_def screen_example_def selected_of_def)


subsection \<open>Typing\<close>

lemma printable_keys:
  assumes "printable c"
  shows "KEY_ENTER \<noteq> of_char c" "KEY_CTRLC \<noteq> of_char c" "KEY_BACKSPACE \<noteq> of_char c"
    "KEY_ESCAPE0 \<noteq> of_char c" "ch_isvalid c"
  using assms
  by (auto simp: printable_def KEY_ENTER_def KEY_CTRLC_def KEY_BACKSPACE_def KEY_ESCAPE0_def
      ch_isvalid_def schar_def)

lemma iteration_printable:
  assumes "printable c"
  shows "iteration s (key c # rest) =
           (if pattern_len s + 1 \<ge> PATTERN_MAX - 1
            then Done (die (ERROR_EXIT ''pattern too long'') (wld s))
            else redraw (s\<lparr>pattern := take (nat (pattern_len s)) (pattern s) @ [c],
                            pattern_len := pattern_len s + 1\<rparr>) rest)"
  using printable_keys[OF assms] by (simp add: iteration.simps Let_def)

lemma typing_step:
  assumes inv: "loop_inv w0 s" and room: "PATTERN_MAX \<le> end' (arena s) - beg (arena s)"
    and pr: "printable c" and lt: "pattern_len s + 1 < PATTERN_MAX - 1"
  shows "\<exists>s1. iteration s (key c # rest) = Next s1 rest \<and> loop_inv w0 s1
           \<and> pattern s1 = pattern s @ [c] \<and> arena s1 = arena s \<and> trm s1 = trm s"
proof -
  let ?se = "s\<lparr>pattern := take (nat (pattern_len s)) (pattern s) @ [c],
                pattern_len := pattern_len s + 1\<rparr>"
  have pl: "pattern_len s = int (length (pattern s))" using inv by (simp add: loop_inv_def)
  have ed: "edited s ?se" using lt unfolding edited_def by blast
  have wf: "wf_entries (ents ?se)" using inv by (simp add: loop_inv_def)
  have "strlen (cur_pattern ?se) + 1 \<le> end' (arena ?se) - beg (arena ?se)"
    using pl lt room by (simp add: cur_pattern_def strlen_def)
  then obtain s1 where r: "redraw ?se rest = Next s1 rest" and rd: "redrawn ?se s1"
    using redraw_ok[OF wf] by blast
  have "loop_inv w0 s1" by (rule loop_inv_redrawn[OF inv ed rd])
  moreover have "pattern s1 = pattern s @ [c]" "arena s1 = arena s" "trm s1 = trm s"
    using rd pl by (simp_all add: redrawn_def)
  moreover have "iteration s (key c # rest) = Next s1 rest"
    using r lt by (simp add: iteration_printable[OF pr])
  ultimately show ?thesis by blast
qed

lemma typing_many:
  assumes "loop_inv w0 s" "PATTERN_MAX \<le> end' (arena s) - beg (arena s)"
    "\<forall>c \<in> set cs. printable c" "pattern_len s + int (length cs) < PATTERN_MAX - 1"
  shows "\<exists>s1. main_loop s (map key cs @ rest) = main_loop s1 rest \<and> loop_inv w0 s1
           \<and> pattern s1 = pattern s @ cs \<and> arena s1 = arena s \<and> trm s1 = trm s"
  using assms
proof (induction cs arbitrary: s)
  case Nil
  then show ?case by auto
next
  case (Cons c cs)
  have "printable c" "pattern_len s + 1 < PATTERN_MAX - 1"
    using Cons.prems by simp_all
  then obtain s1 where it: "iteration s (key c # map key cs @ rest) = Next s1 (map key cs @ rest)"
    and inv1: "loop_inv w0 s1" and p1: "pattern s1 = pattern s @ [c]" and a1: "arena s1 = arena s"
    and t1: "trm s1 = trm s"
    using typing_step[OF Cons.prems(1,2)] by blast
  have "pattern_len s = int (length (pattern s))" "pattern_len s1 = int (length (pattern s1))"
    using Cons.prems(1) inv1 by (simp_all add: loop_inv_def)
  then have "pattern_len s1 + int (length cs) < PATTERN_MAX - 1"
    using Cons.prems(4) p1 by simp
  then obtain s2 where "main_loop s1 (map key cs @ rest) = main_loop s2 rest" "loop_inv w0 s2"
    "pattern s2 = pattern s1 @ cs" "arena s2 = arena s1" "trm s2 = trm s1"
    using Cons.IH[OF inv1] a1 Cons.prems(2,3) by auto
  then show ?case
    using main_loop_Next[OF it] p1 a1 t1 by auto
qed

lemma typing_blocked:
  assumes "loop_inv w0 s" "pattern s = []" "PATTERN_MAX \<le> end' (arena s) - beg (arena s)"
    "\<forall>c \<in> set cs. printable c" "int (length cs) \<le> PATTERN_MAX - 2"
  shows "\<exists>s1. main_loop s (map key cs) = Blocked s1 \<and> pattern s1 = cs"
proof -
  have "pattern_len s = 0" using assms(1,2) by (simp add: loop_inv_def)
  then obtain s1 where "main_loop s (map key cs @ []) = main_loop s1 []" "pattern s1 = pattern s @ cs"
    using typing_many[OF assms(1,3,4), of "[]"] assms(5) by auto
  moreover have "main_loop s1 [] = Blocked s1"
    by (rule main_loop_Done) simp
  ultimately show ?thesis using assms(2) by simp
qed

lemma typing_too_long:
  assumes "loop_inv w0 s" "pattern s = []" "PATTERN_MAX \<le> end' (arena s) - beg (arena s)"
    "\<forall>c \<in> set cs. printable c" "int (length cs) = PATTERN_MAX - 1" "tty (trm s) \<noteq> 2"
  shows "exit_status (main_loop s (map key cs @ rest)) = Some EXIT_FAILURE
         \<and> exit_out (main_loop s (map key cs @ rest)) 2
             = Some (out w0 2 @ ''pattern too long'' @ [CHR 0x0A])"
proof -
  have "cs \<noteq> []" using assms(5) by (auto simp: PATTERN_MAX_def)
  then obtain cs' c where cs: "cs = cs' @ [c]" by (metis rev_exhaust)
  have pl0: "pattern_len s = 0" using assms(1,2) by (simp add: loop_inv_def)
  have "pattern_len s + int (length cs') < PATTERN_MAX - 1"
    using assms(5) pl0 cs by simp
  then obtain s1 where m: "main_loop s (map key cs' @ (key c # rest)) = main_loop s1 (key c # rest)"
    and inv1: "loop_inv w0 s1" and p1: "pattern s1 = pattern s @ cs'" and t1: "trm s1 = trm s"
    using typing_many[OF assms(1,3), of cs' "key c # rest"] assms(4) cs by auto
  have "pattern_len s1 = int (length cs')" using inv1 p1 assms(2) by (simp add: loop_inv_def)
  then have ge: "pattern_len s1 + 1 \<ge> PATTERN_MAX - 1" using assms(5) cs by simp
  have "printable c" using assms(4) cs by simp
  then have "iteration s1 (key c # rest) = Done (die (ERROR_EXIT ''pattern too long'') (wld s1))"
    using ge by (simp add: iteration_printable)
  then have "main_loop s1 (key c # rest)
               = Exit EXIT_FAILURE (writestr 2 (''pattern too long'' @ [CHR 0x0A]) (wld s1))"
    by (simp add: main_loop_Done die_oom)
  moreover have "out (wld s1) 2 = out w0 2"
    using inv1 t1 assms(6) by (simp add: loop_inv_def)
  ultimately show ?thesis using m cs by simp
qed


text \<open>
  C7, amended: from the start of the loop, with \<open>PATTERN_MAX\<close> bytes of scratch room in
  the arena, typing up to \<open>PATTERN_MAX - 2\<close> (4094) printable characters succeeds: the
  loop goes on and waits for the next key with those characters as the pattern. The
  character that makes the pattern \<open>PATTERN_MAX - 1\<close> (4095) bytes long ends the process
  with ``pattern too long'' on descriptor 2 and failure status (the guard is
  \<^verbatim>\<open>pattern_len >= PATTERN_MAX - 1\<close>).
\<close>

theorem pattern_length_limit:
  assumes st: "startup mr w stdin fd rows = Inr s0"
    and room: "PATTERN_MAX \<le> end' (arena s0) - beg (arena s0)"
    and pr: "\<forall>c \<in> set cs. printable c" and fd: "fd \<noteq> 2"
  shows "(int (length cs) \<le> PATTERN_MAX - 2 \<longrightarrow>
            (\<exists>s. main mr w stdin fd rows (map key cs) = Blocked s \<and> pattern s = cs))
       \<and> (int (length cs) = PATTERN_MAX - 1 \<longrightarrow>
            exit_status (main mr w stdin fd rows (map key cs @ rest)) = Some EXIT_FAILURE
            \<and> exit_out (main mr w stdin fd rows (map key cs @ rest)) 2
                = Some (out w 2 @ ''pattern too long'' @ [CHR 0x0A]))"
proof -
  have inv: "loop_inv w s0" and p: "pattern s0 = []" and t: "tty (trm s0) \<noteq> 2"
    using startup_inv[OF st] fd by simp_all
  have m: "\<And>keys. main mr w stdin fd rows keys = main_loop s0 keys"
    using st by (simp add: main_def)
  show ?thesis
    unfolding m
    using typing_blocked[OF inv p room pr] typing_too_long[OF inv p room pr _ t, of rest]
    by blast
qed

theorem pattern_length_limit_witness:
  "\<exists>s0. startup (Some 0) world_example stdin_example 3 24 = Inr s0
      \<and> PATTERN_MAX \<le> end' (arena s0) - beg (arena s0) \<and> (3::int) \<noteq> 2
      \<and> int (length ''ab'') \<le> PATTERN_MAX - 2
      \<and> (\<exists>s. main (Some 0) world_example stdin_example 3 24 (map key ''ab'') = Blocked s
             \<and> pattern s = ''ab'')
      \<and> int (length (replicate 4095 CHR ''a'')) = PATTERN_MAX - 1
      \<and> exit_status (main (Some 0) world_example stdin_example 3 24
                       (map key (replicate 4095 CHR ''a'') @ [])) = Some EXIT_FAILURE
      \<and> exit_out (main (Some 0) world_example stdin_example 3 24
                    (map key (replicate 4095 CHR ''a'') @ [])) 2
          = Some (''pattern too long'' @ [CHR 0x0A])"
proof -
  have "\<exists>s0. startup (Some 0) world_example stdin_example 3 24 = Inr s0
          \<and> PATTERN_MAX \<le> end' (arena s0) - beg (arena s0)"
    by (simp add: run_simps)
  then obtain s0 where st: "startup (Some 0) world_example stdin_example 3 24 = Inr s0"
    and room: "PATTERN_MAX \<le> end' (arena s0) - beg (arena s0)"
    by blast
  have fd: "(3::int) \<noteq> 2" by simp
  have p1: "\<forall>c \<in> set ''ab''. printable c" by (simp add: printable_def)
  have p2: "\<forall>c \<in> set (replicate 4095 CHR ''a''). printable c" by (simp add: printable_def)
  have l1: "int (length ''ab'') \<le> PATTERN_MAX - 2" by (simp add: PATTERN_MAX_def)
  have l2: "int (length (replicate 4095 CHR ''a'')) = PATTERN_MAX - 1" by (simp add: PATTERN_MAX_def)
  have o: "out world_example 2 = []" by (simp add: world_example_def)
  show ?thesis
    using pattern_length_limit[OF st room p1 fd] pattern_length_limit[OF st room p2 fd, of "[]"]
      st room l1 l2 o
    by (intro exI[of _ s0]) simp
qed

text \<open>
  C7 as stated, with \<open>PATTERN_MAX\<close> as the maximum pattern length: typing printable
  characters up to the maximum succeeds. It fails: 4095 printable characters, fewer
  than \<open>PATTERN_MAX\<close> = 4096, end the process with failure status.
\<close>

theorem pattern_too_long_below_pattern_max:
  "int (length (replicate 4095 CHR ''a'')) \<le> PATTERN_MAX
   \<and> list_all printable (replicate 4095 CHR ''a'')
   \<and> exit_status (main (Some 0) world_example stdin_example 3 24
                    (map key (replicate 4095 CHR ''a''))) = Some EXIT_FAILURE"
proof -
  have "\<exists>s0. startup (Some 0) world_example stdin_example 3 24 = Inr s0
          \<and> PATTERN_MAX \<le> end' (arena s0) - beg (arena s0)"
    by (simp add: run_simps)
  then obtain s0 where st: "startup (Some 0) world_example stdin_example 3 24 = Inr s0"
    and room: "PATTERN_MAX \<le> end' (arena s0) - beg (arena s0)"
    by blast
  have inv: "loop_inv world_example s0" and p: "pattern s0 = []" and t: "tty (trm s0) \<noteq> 2"
    using startup_inv[OF st] by simp_all
  have p2: "\<forall>c \<in> set (replicate 4095 CHR ''a''). printable c" by (simp add: printable_def)
  have l2: "int (length (replicate 4095 CHR ''a'')) = PATTERN_MAX - 1" by (simp add: PATTERN_MAX_def)
  have "exit_status (main_loop s0 (map key (replicate 4095 CHR ''a'') @ [])) = Some EXIT_FAILURE"
    using typing_too_long[OF inv p room p2 l2 t] by blast
  then have "exit_status (main (Some 0) world_example stdin_example 3 24
                 (map key (replicate 4095 CHR ''a''))) = Some EXIT_FAILURE"
    using st by (simp add: main_def)
  moreover have "list_all printable (replicate 4095 CHR ''a'')"
    using p2 by (simp add: list_all_iff)
  ultimately show ?thesis by (simp add: PATTERN_MAX_def)
qed


subsection \<open>The matcher in the program\<close>

text \<open>
  The uppercase pattern is one the program receives: on the example input, whose
  second entry is \<^verbatim>\<open>"Aa"\<close>, typing \<^verbatim>\<open>'a'\<close> leaves that entry as the only match and
  typing \<^verbatim>\<open>'A'\<close> leaves no match.
\<close>

lemma uppercase_key_finds_nothing:
  "\<exists>s. main (Some 0) world_example stdin_example 3 24 [key CHR ''a''] = Blocked s
      \<and> pattern s = ''a'' \<and> matches_len (ents s) = 1
      \<and> nth_opt (matches (ents s)) 0 = Some 1"
  "\<exists>s. main (Some 0) world_example stdin_example 3 24 [key CHR ''A''] = Blocked s
      \<and> pattern s = ''A'' \<and> matches_len (ents s) = 0"
  by (simp_all add: run_simps)

end
